theory Spec2Isabelle
  imports Complex_Main "HOL-Library.AList" "HOL-Library.Multiset"
begin

section \<open>Playback engine (packages/simulation/engine/engine.go)\<close>

text \<open>
  The engine owns one simulation (a value behind the Go interface \<open>Simulation\<close>), the step
  list it generated, a cursor \<open>currentStep\<close>, the list \<open>history\<close> of step results and
  the playback mode and speed. Every method takes the engine and returns the engine it
  leaves behind. The mutex is not modelled: each method body is one atomic transition.
  Go's \<open>int\<close> is modelled by \<open>int\<close> (the cursor never leaves \<open>-1 .. len(steps)\<close>), and
  \<open>float64\<close> speeds by \<open>real\<close> (the values that reach \<open>SetSpeed\<close> come from JSON
  numbers, which are finite; the method only compares and stores them).
\<close>

datatype SimulationMode = ModeIdle | ModePlaying | ModePaused | ModeStep

datatype engine_error =
  ErrNotInitialized | ErrAlreadyRunning | ErrNoMoreSteps | ErrNoPreviousSteps
  | ErrInvalidStepIndex

record Highlight =
  hl_Type :: string
  hl_ID :: string
  hl_Color :: string
  hl_Animation :: string
  hl_Duration :: int

text \<open>\<open>Step.Execute\<close> is never set nor called by any simulation and is left out.\<close>

record Step =
  st_Index :: int
  st_Title :: string
  st_Description :: string
  st_Highlights :: "Highlight list"

record 'd StepResult =
  res_Success :: bool
  res_Error :: "engine_error option"
  res_Highlights :: "Highlight list"
  res_Data :: "'d option"
  res_Description :: string

record 'd StepInfo =
  si_Index :: int
  si_Total :: int
  si_Title :: string
  si_Description :: string
  si_Highlights :: "Highlight list"
  si_Data :: "'d option"

record 'd SimulationState =
  ss_Project :: string
  ss_Mode :: SimulationMode
  ss_Speed :: real
  ss_CurrentStep :: "'d StepInfo option"
  ss_TotalSteps :: int
  ss_Data :: 'd

record 'd StepUpdateResponse =
  su_Project :: string
  su_Step :: "'d StepInfo"
  su_Highlights :: "Highlight list"
  su_Data :: 'd

text \<open>
  The interface \<open>Simulation\<close>: a dictionary of the methods the engine calls, over the
  simulation's own state \<open>'s\<close>. \<open>'c\<close> is the configuration map, \<open>'d\<close> the
  visualization data (\<open>map[string]interface{}\<close>). Errors of a simulation are messages.
\<close>

record ('s, 'c, 'd) Simulation =
  sim_Name :: "'s \<Rightarrow> string"
  sim_Initialize :: "'c \<Rightarrow> 's \<Rightarrow> string option \<times> 's"
  sim_Reset :: "'s \<Rightarrow> string option \<times> 's"
  sim_GenerateSteps :: "'s \<Rightarrow> Step list"
  sim_ExecuteStep :: "int \<Rightarrow> 's \<Rightarrow> 'd StepResult \<times> 's"
  sim_GetVisualizationData :: "'s \<Rightarrow> 'd"

text \<open>A \<open>time.Ticker\<close>: its period in nanoseconds and whether \<open>Stop\<close> was called.\<close>

record Ticker =
  period :: int
  stopped :: bool

datatype 'd payload =
  StatePayload "'d SimulationState"
  | StepPayload "'d StepUpdateResponse"
  | SpeedPayload real

text \<open>
  \<open>stopChan_closed\<close> tells whether the current \<open>stopChan\<close> has been closed;
  \<open>emitted\<close> is the sequence of calls made to the emitter, oldest first.
\<close>

record ('s, 'd) Engine =
  simulation :: 's
  mode :: SimulationMode
  currentStep :: int
  steps :: "Step list"
  history :: "'d StepResult list"
  speed :: real
  ticker :: "Ticker option"
  stopChan_closed :: bool
  emitted :: "(string \<times> 'd payload) list"

definition NewEngine :: "'s \<Rightarrow> ('s, 'd) Engine" where
  "NewEngine sim =
     \<lparr>simulation = sim, mode = ModeIdle, currentStep = -1, steps = [], history = [],
      speed = 1, ticker = None, stopChan_closed = False, emitted = []\<rparr>"

definition emit :: "string \<Rightarrow> 'd payload \<Rightarrow> ('s, 'd) Engine \<Rightarrow> ('s, 'd) Engine" where
  "emit event data e = e\<lparr>emitted := emitted e @ [(event, data)]\<rparr>"

definition GetState ::
  "('s, 'c, 'd) Simulation \<Rightarrow> ('s, 'd) Engine \<Rightarrow> 'd SimulationState" where
  "GetState I e =
     (let cur = currentStep e;
          total = int (length (steps e));
          info =
            (if 0 \<le> cur \<and> cur < total then
               let step = steps e ! nat cur;
                   highlights =
                     (if cur < int (length (history e))
                      then res_Highlights (history e ! nat cur)
                      else st_Highlights step)
               in Some \<lparr>si_Index = st_Index step, si_Total = total,
                         si_Title = st_Title step, si_Description = st_Description step,
                         si_Highlights = highlights, si_Data = None\<rparr>
             else None)
      in \<lparr>ss_Project = sim_Name I (simulation e), ss_Mode = mode e, ss_Speed = speed e,
          ss_CurrentStep = info, ss_TotalSteps = total,
          ss_Data = sim_GetVisualizationData I (simulation e)\<rparr>)"

text \<open>Outside the step range \<open>buildStepUpdate\<close> sends the zero \<open>StepInfo\<close>.\<close>

definition buildStepUpdate ::
  "('s, 'c, 'd) Simulation \<Rightarrow> 'd StepResult \<Rightarrow> ('s, 'd) Engine \<Rightarrow> 'd StepUpdateResponse"
  where
  "buildStepUpdate I result e =
     (let cur = currentStep e;
          total = int (length (steps e));
          step =
            (if 0 \<le> cur \<and> cur < total then
               \<lparr>si_Index = cur, si_Total = total, si_Title = st_Title (steps e ! nat cur),
                si_Description = res_Description result,
                si_Highlights = res_Highlights result, si_Data = res_Data result\<rparr>
             else
               \<lparr>si_Index = 0, si_Total = 0, si_Title = [], si_Description = [],
                si_Highlights = [], si_Data = None\<rparr>)
      in \<lparr>su_Project = sim_Name I (simulation e), su_Step = step,
          su_Highlights = res_Highlights result,
          su_Data = sim_GetVisualizationData I (simulation e)\<rparr>)"

definition stop_ticker :: "Ticker option \<Rightarrow> Ticker option" where
  "stop_ticker t = map_option (\<lambda>k. k\<lparr>stopped := True\<rparr>) t"

definition Stop :: "('s, 'd) Engine \<Rightarrow> ('s, 'd) Engine" where
  "Stop e =
     (let e1 = (if mode e = ModePlaying
                then e\<lparr>stopChan_closed := True, ticker := stop_ticker (ticker e)\<rparr>
                else e)
      in e1\<lparr>mode := ModeIdle\<rparr>)"

definition Initialize ::
  "('s, 'c, 'd) Simulation \<Rightarrow> 'c \<Rightarrow> ('s, 'd) Engine \<Rightarrow> string option \<times> ('s, 'd) Engine"
  where
  "Initialize I config e =
     (case sim_Initialize I config (simulation e) of
        (Some err, sim') \<Rightarrow> (Some err, e\<lparr>simulation := sim'\<rparr>)
      | (None, sim') \<Rightarrow>
          (let e1 = e\<lparr>simulation := sim', steps := sim_GenerateSteps I sim',
                       currentStep := -1, history := [], mode := ModeIdle\<rparr>
           in (None, emit ''initialized'' (StatePayload (GetState I e1)) e1)))"

definition Reset ::
  "('s, 'c, 'd) Simulation \<Rightarrow> ('s, 'd) Engine \<Rightarrow> string option \<times> ('s, 'd) Engine" where
  "Reset I e =
     (let e0 = Stop e in
      case sim_Reset I (simulation e0) of
        (Some err, sim') \<Rightarrow> (Some err, e0\<lparr>simulation := sim'\<rparr>)
      | (None, sim') \<Rightarrow>
          (let e1 = e0\<lparr>simulation := sim', steps := sim_GenerateSteps I sim',
                        currentStep := -1, history := [], mode := ModeIdle\<rparr>
           in (None, emit ''reset'' (StatePayload (GetState I e1)) e1)))"

definition StepForward ::
  "('s, 'c, 'd) Simulation \<Rightarrow> ('s, 'd) Engine
     \<Rightarrow> (engine_error + 'd StepResult) \<times> ('s, 'd) Engine" where
  "StepForward I e =
     (if length (steps e) = 0 then (Inl ErrNotInitialized, e)
      else
        let nextStep = currentStep e + 1 in
        if nextStep \<ge> int (length (steps e)) then (Inl ErrNoMoreSteps, e)
        else
          (case sim_ExecuteStep I nextStep (simulation e) of
             (result, sim') \<Rightarrow>
               (let e1 = e\<lparr>simulation := sim', currentStep := nextStep,
                            history := history e @ [result], mode := ModeStep\<rparr>
                in (Inr result,
                    emit ''step_forward'' (StepPayload (buildStepUpdate I result e1)) e1))))"

text \<open>
  \<open>StepBackward\<close> returns \<open>(nil, nil)\<close> on the branch that resets to the beginning:
  \<open>Inr None\<close>.
\<close>

definition StepBackward ::
  "('s, 'c, 'd) Simulation \<Rightarrow> ('s, 'd) Engine
     \<Rightarrow> (engine_error + 'd StepResult option) \<times> ('s, 'd) Engine" where
  "StepBackward I e =
     (if currentStep e < 0 then (Inl ErrNoPreviousSteps, e)
      else
        let e1 = e\<lparr>currentStep := currentStep e - 1\<rparr> in
        if currentStep e1 \<ge> 0 \<and> int (length (history e1)) > currentStep e1 then
          (let result = history e1 ! nat (currentStep e1)
           in (Inr (Some result),
               emit ''step_backward'' (StepPayload (buildStepUpdate I result e1)) e1))
        else
          (case sim_Reset I (simulation e1) of
             (_, sim') \<Rightarrow>
               (let e2 = e1\<lparr>simulation := sim', history := [], mode := ModeIdle\<rparr>
                in (Inr None, emit ''step_backward'' (StatePayload (GetState I e2)) e2))))"

text \<open>
  \<open>Play\<close> makes a fresh \<open>stopChan\<close> and starts the goroutine \<open>playLoop\<close>; the
  goroutine's transitions are \<open>playLoop_start\<close>, \<open>playLoop_tick\<close> and
  \<open>playLoop_stop\<close> below.
\<close>

definition Play ::
  "('s, 'c, 'd) Simulation \<Rightarrow> ('s, 'd) Engine \<Rightarrow> engine_error option \<times> ('s, 'd) Engine"
  where
  "Play I e =
     (if mode e = ModePlaying then (Some ErrAlreadyRunning, e)
      else if length (steps e) = 0 then (Some ErrNotInitialized, e)
      else
        let e1 = e\<lparr>mode := ModePlaying, stopChan_closed := False\<rparr>
        in (None, emit ''play'' (StatePayload (GetState I e1)) e1))"

definition Pause :: "('s, 'c, 'd) Simulation \<Rightarrow> ('s, 'd) Engine \<Rightarrow> ('s, 'd) Engine" where
  "Pause I e =
     (let e1 = (if mode e = ModePlaying
                then e\<lparr>mode := ModePaused, stopChan_closed := True,
                       ticker := stop_ticker (ticker e)\<rparr>
                else e)
      in emit ''pause'' (StatePayload (GetState I e1)) e1)"

definition SetSpeed :: "real \<Rightarrow> ('s, 'd) Engine \<Rightarrow> ('s, 'd) Engine" where
  "SetSpeed sp e =
     (let sp1 = (if sp < 0.25 then 0.25 else sp);
          sp2 = (if sp1 > 4.0 then 4.0 else sp1)
      in emit ''speed_changed'' (SpeedPayload sp2) (e\<lparr>speed := sp2\<rparr>))"

text \<open>
  The goroutine \<open>playLoop\<close>. On entry it computes the interval
  \<open>time.Duration(float64(time.Second) / e.speed)\<close> once and stores a new ticker of that
  period in \<open>e.ticker\<close>. The division is one of \<open>float64\<close>: the exact quotient
  rounded to the nearest number with a significand of 53 bits, a tie going to the even
  significand; the conversion to \<open>Duration\<close>, an \<open>int64\<close>, drops the fraction.
  A speed is a finite \<open>float64\<close>, taken as the real number it denotes.
  \<open>e.speed\<close> is 1.0 from \<open>NewEngine\<close> or a value that \<open>SetSpeed\<close> clamped, so the
  quotient lies between \<open>2.5e8\<close> and \<open>4e9\<close>, where the binary exponent is
  \<open>ilog2\<close> of the integer part and neither overflow nor a subnormal result occurs.

  Each pass of the \<open>select\<close> of \<open>playLoop\<close> is either the stop branch, taken when
  \<open>stopChan\<close> is closed, or the tick branch. The boolean tells whether the loop goes
  on; the deferred \<open>e.ticker.Stop()\<close> runs when it does not.
\<close>

function ilog2 :: "int \<Rightarrow> int" where
  "ilog2 n = (if n < 2 then 0 else 1 + ilog2 (n div 2))"
  by pat_completeness auto
termination
  by (relation "measure nat") auto

declare ilog2.simps [simp del]

definition round_half_even :: "real \<Rightarrow> int" where
  "round_half_even x =
     (let n = \<lfloor>x\<rfloor>; r = x - of_int n
      in if r < 1 / 2 then n else if 1 / 2 < r then n + 1 else if even n then n else n + 1)"

text \<open>The \<open>float64\<close> nearest to a real \<open>x\<close> with \<open>1 \<le> x < 2 ^ 53\<close>.\<close>

definition float64_round :: "real \<Rightarrow> real" where
  "float64_round x =
     (let e = ilog2 \<lfloor>x\<rfloor>
      in of_int (round_half_even (x * 2 powi (52 - e))) * 2 powi (e - 52))"

definition int64_of_float64 :: "real \<Rightarrow> int" where
  "int64_of_float64 x = (if 0 \<le> x then \<lfloor>x\<rfloor> else \<lceil>x\<rceil>)"

definition interval_of :: "real \<Rightarrow> int" where
  "interval_of sp = int64_of_float64 (float64_round (1000000000 / sp))"

definition playLoop_start :: "('s, 'd) Engine \<Rightarrow> ('s, 'd) Engine" where
  "playLoop_start e =
     e\<lparr>ticker := Some \<lparr>period = interval_of (speed e), stopped = False\<rparr>\<rparr>"

definition playLoop_stop :: "('s, 'd) Engine \<Rightarrow> ('s, 'd) Engine" where
  "playLoop_stop e = e\<lparr>ticker := stop_ticker (ticker e)\<rparr>"

definition playLoop_tick ::
  "('s, 'c, 'd) Simulation \<Rightarrow> ('s, 'd) Engine \<Rightarrow> bool \<times> ('s, 'd) Engine" where
  "playLoop_tick I e =
     (case StepForward I e of
        (Inl ErrNoMoreSteps, e1) \<Rightarrow>
          (let e2 = Pause I e1 in (False, e2\<lparr>ticker := stop_ticker (ticker e2)\<rparr>))
      | (_, e1) \<Rightarrow> (True, e1))"


subsection \<open>A simulation with a prepared step list\<close>

text \<open>
  \<open>BTreeSimulation\<close>, \<open>MVCCSimulation\<close> and \<open>ParserSimulation\<close> implement
  \<open>GenerateSteps\<close>, \<open>ExecuteStep\<close> and \<open>Reset\<close> with the same bodies over their
  fields \<open>steps\<close> and \<open>currentStep\<close>. \<open>SimCore\<close> keeps these two fields; its
  \<open>Initialize\<close> stores the step list it is given (the simulations prepare theirs from
  the configuration), and its visualization data is empty.
\<close>

record SimCore =
  sc_steps :: "Step list"
  sc_currentStep :: int

definition core_ExecuteStep :: "int \<Rightarrow> SimCore \<Rightarrow> unit StepResult \<times> SimCore" where
  "core_ExecuteStep index sim =
     (if index < 0 \<or> index \<ge> int (length (sc_steps sim)) then
        (\<lparr>res_Success = False, res_Error = Some ErrInvalidStepIndex, res_Highlights = [],
          res_Data = None, res_Description = []\<rparr>, sim)
      else
        let sim' = sim\<lparr>sc_currentStep := index\<rparr>;
            step = sc_steps sim' ! nat index
        in (\<lparr>res_Success = True, res_Error = None, res_Highlights = st_Highlights step,
             res_Data = Some (), res_Description = st_Description step\<rparr>, sim'))"

definition core_sim :: "(SimCore, Step list, unit) Simulation" where
  "core_sim =
     \<lparr>sim_Name = (\<lambda>_. ''core''),
      sim_Initialize = (\<lambda>config sim. (None, \<lparr>sc_steps = config, sc_currentStep = -1\<rparr>)),
      sim_Reset = (\<lambda>sim. (None, \<lparr>sc_steps = [], sc_currentStep = -1\<rparr>)),
      sim_GenerateSteps = sc_steps,
      sim_ExecuteStep = core_ExecuteStep,
      sim_GetVisualizationData = (\<lambda>_. ())\<rparr>"

definition mk_step :: "int \<Rightarrow> string \<Rightarrow> Step" where
  "mk_step i t =
     \<lparr>st_Index = i, st_Title = t, st_Description = t, st_Highlights = []\<rparr>"

definition four_steps :: "Step list" where
  "four_steps = [mk_step 0 ''s0'', mk_step 1 ''s1'', mk_step 2 ''s2'', mk_step 3 ''s3'']"

definition engine4 :: "(SimCore, unit) Engine" where
  "engine4 =
     snd (Initialize core_sim four_steps
            (NewEngine \<lparr>sc_steps = [], sc_currentStep = -1\<rparr>))"


definition fwd :: "(SimCore, unit) Engine \<Rightarrow> (SimCore, unit) Engine" where
  "fwd e = snd (StepForward core_sim e)"

definition bwd :: "(SimCore, unit) Engine \<Rightarrow> (SimCore, unit) Engine" where
  "bwd e = snd (StepBackward core_sim e)"

definition cursor_in_range :: "('s, 'd) Engine \<Rightarrow> bool" where
  "cursor_in_range e =
     (-1 \<le> currentStep e \<and> currentStep e \<le> int (length (steps e)) - 1)"

subsection \<open>Properties of the engine\<close>

lemma ilog2_bounds:
  "1 \<le> n \<Longrightarrow> 0 \<le> ilog2 n \<and> 2 ^ nat (ilog2 n) \<le> n \<and> n < 2 ^ nat (ilog2 n + 1)"
proof (induction n rule: ilog2.induct)
  case (1 n)
  show ?case
  proof (cases "n < 2")
    case True
    with 1(2) have "n = 1" by simp
    thus ?thesis by (simp add: ilog2.simps)
  next
    case False
    hence "1 \<le> n div 2" by simp
    from 1(1) [OF False this]
    have ih: "0 \<le> ilog2 (n div 2)" "2 ^ nat (ilog2 (n div 2)) \<le> n div 2"
      "n div 2 < 2 ^ nat (ilog2 (n div 2) + 1)"
      by simp_all
    have eq: "ilog2 n = 1 + ilog2 (n div 2)"
      using False by (subst ilog2.simps) simp
    have n1: "nat (1 + ilog2 (n div 2)) = Suc (nat (ilog2 (n div 2)))"
      using ih(1) by (simp add: nat_add_distrib)
    have n2: "nat (1 + ilog2 (n div 2) + 1) = Suc (Suc (nat (ilog2 (n div 2))))"
      using ih(1) by (simp add: nat_add_distrib)
    have n3: "nat (ilog2 (n div 2) + 1) = Suc (nat (ilog2 (n div 2)))"
      using ih(1) by (simp add: nat_add_distrib)
    from ih show ?thesis
      unfolding eq n1 n2 n3 by (simp, linarith)
  qed
qed

lemma round_half_even_lower:
  assumes "of_int c \<le> x"
  shows "c \<le> round_half_even x"
proof -
  have "c \<le> \<lfloor>x\<rfloor>"
    using assms by (simp add: le_floor_iff)
  thus ?thesis
    by (simp add: round_half_even_def Let_def)
qed

lemma round_half_even_upper:
  assumes "x \<le> of_int c"
  shows "round_half_even x \<le> c"
proof (cases "x = of_int c")
  case True
  thus ?thesis by (simp add: round_half_even_def)
next
  case False
  with assms have "x < of_int c" by simp
  hence "\<lfloor>x\<rfloor> < c" by (simp add: floor_less_iff)
  thus ?thesis by (simp add: round_half_even_def Let_def)
qed

lemma float64_round_between:
  assumes lo: "of_int a \<le> x" and hi: "x \<le> of_int b" and a: "1 \<le> a" and b: "b < 2 ^ 53"
  shows "of_int a \<le> float64_round x \<and> float64_round x \<le> of_int b"
proof -
  define e where "e = ilog2 \<lfloor>x\<rfloor>"
  have fl: "a \<le> \<lfloor>x\<rfloor>" "\<lfloor>x\<rfloor> \<le> b"
    using lo hi by (simp_all add: le_floor_iff floor_le_iff)
  with a have "1 \<le> \<lfloor>x\<rfloor>" by linarith
  from ilog2_bounds [OF this]
  have e0: "0 \<le> e" and elo: "2 ^ nat e \<le> \<lfloor>x\<rfloor>"
    by (simp_all add: e_def)
  have "(2::int) ^ nat e < 2 ^ 53"
    using elo fl(2) b by linarith
  hence "nat e < 53"
    by (rule power_less_imp_less_exp [rotated]) simp
  hence e52: "e \<le> 52" by simp
  define k where "k = nat (52 - e)"
  have p1: "(2::real) powi (52 - e) = 2 ^ k"
    using e52 by (simp add: k_def power_int_def)
  have "(2::real) powi (e - 52) = 2 powi (- (52 - e))"
    by simp
  hence p2: "(2::real) powi (e - 52) = 1 / 2 ^ k"
    by (simp only: power_int_minus p1 inverse_eq_divide)
  have "of_int (a * 2 ^ k) \<le> x * 2 ^ k" "x * 2 ^ k \<le> of_int (b * 2 ^ k)"
    using lo hi by simp_all
  hence "a * 2 ^ k \<le> round_half_even (x * 2 ^ k)" "round_half_even (x * 2 ^ k) \<le> b * 2 ^ k"
    by (simp_all only: round_half_even_lower round_half_even_upper)
  hence "of_int a * 2 ^ k \<le> (of_int (round_half_even (x * 2 ^ k)) :: real)"
    "(of_int (round_half_even (x * 2 ^ k)) :: real) \<le> of_int b * 2 ^ k"
    by (metis of_int_le_iff of_int_mult of_int_numeral of_int_power)+
  thus ?thesis
    by (simp add: float64_round_def e_def [symmetric] p1 p2 field_simps)
qed

lemma interval_of_bounds:
  assumes "1 / 4 \<le> sp" and "sp \<le> 4"
  shows "250000000 \<le> interval_of sp \<and> interval_of sp \<le> 4000000000"
proof -
  have "0 < sp" using assms by simp
  hence "of_int 250000000 \<le> 1000000000 / sp" "1000000000 / sp \<le> of_int 4000000000"
    using assms by (simp_all add: field_simps)
  from float64_round_between [OF this]
  have "250000000 \<le> float64_round (1000000000 / sp)"
    "float64_round (1000000000 / sp) \<le> 4000000000"
    by simp_all
  thus ?thesis
    by (simp add: interval_of_def int64_of_float64_def le_floor_iff floor_le_iff)
qed

text \<open>
  The periods at the speeds used below, and at the \<open>float64\<close> numbers nearest to
  \<open>0.4\<close> and to \<open>10/3\<close>, where the rounded quotient is a whole number that the
  exact quotient stays below.
\<close>

lemma interval_of_1: "interval_of 1 = 1000000000"
  by code_simp

lemma interval_of_2: "interval_of 2 = 500000000"
  by code_simp

lemma interval_of_clamp_ends: "interval_of 4 = 250000000 \<and> interval_of 0.25 = 4000000000"
  by code_simp

lemma interval_of_rounded_quotient:
  "interval_of (3602879701896397 / 2 ^ 53) = 2500000000
   \<and> \<lfloor>1000000000 / (3602879701896397 / 2 ^ 53) :: real\<rfloor> = 2499999999
   \<and> interval_of (7505999378950827 / 2 ^ 51) = 300000000
   \<and> \<lfloor>1000000000 / (7505999378950827 / 2 ^ 51) :: real\<rfloor> = 299999999"
  by code_simp

lemmas engine_defs =
  Initialize_def Reset_def Stop_def NewEngine_def emit_def GetState_def StepForward_def
  StepBackward_def buildStepUpdate_def Play_def Pause_def SetSpeed_def playLoop_start_def
  playLoop_stop_def playLoop_tick_def stop_ticker_def interval_of_1 interval_of_2

lemmas core_defs =
  engine4_def core_sim_def four_steps_def mk_step_def core_ExecuteStep_def fwd_def bwd_def

text \<open>The cursor stays between \<open>-1\<close> and \<open>len(steps) - 1\<close> under every method.\<close>

lemma cursor_in_range_NewEngine: "cursor_in_range (NewEngine sim)"
  by (simp add: cursor_in_range_def NewEngine_def)

lemma cursor_in_range_Initialize: "cursor_in_range e \<Longrightarrow> cursor_in_range (snd (Initialize I c e))"
  by (auto simp: cursor_in_range_def Initialize_def emit_def Let_def split: prod.splits option.splits)

lemma cursor_in_range_Reset: "cursor_in_range e \<Longrightarrow> cursor_in_range (snd (Reset I e))"
  by (auto simp: cursor_in_range_def Reset_def Stop_def emit_def Let_def
      split: prod.splits option.splits)

lemma cursor_in_range_StepForward:
  "cursor_in_range e \<Longrightarrow> cursor_in_range (snd (StepForward I e))"
  by (auto simp: cursor_in_range_def StepForward_def emit_def Let_def split: prod.splits)

lemma cursor_in_range_StepBackward:
  "cursor_in_range e \<Longrightarrow> cursor_in_range (snd (StepBackward I e))"
  by (auto simp: cursor_in_range_def StepBackward_def emit_def Let_def split: prod.splits)

lemma cursor_in_range_Play: "cursor_in_range e \<Longrightarrow> cursor_in_range (snd (Play I e))"
  by (auto simp: cursor_in_range_def Play_def emit_def Let_def)

lemma cursor_in_range_Pause: "cursor_in_range e \<Longrightarrow> cursor_in_range (Pause I e)"
  by (auto simp: cursor_in_range_def Pause_def emit_def Let_def)

lemma cursor_in_range_SetSpeed: "cursor_in_range e \<Longrightarrow> cursor_in_range (SetSpeed f e)"
  by (auto simp: cursor_in_range_def SetSpeed_def emit_def Let_def)

lemma cursor_in_range_playLoop_tick:
  assumes "cursor_in_range e"
  shows "cursor_in_range (snd (playLoop_tick I e))"
proof -
  obtain r e1 where sf: "StepForward I e = (r, e1)"
    by (cases "StepForward I e")
  have e1: "cursor_in_range e1"
    using cursor_in_range_StepForward [OF assms, of I] sf by simp
  have "cursor_in_range (Pause I e1)"
    using e1 by (rule cursor_in_range_Pause)
  then have "cursor_in_range ((Pause I e1)\<lparr>ticker := stop_ticker (ticker (Pause I e1))\<rparr>)"
    by (simp add: cursor_in_range_def)
  with e1 sf show ?thesis
    by (auto simp: playLoop_tick_def Let_def split: sum.splits engine_error.splits)
qed

text \<open>
  C7. With a non-empty step list and the cursor in its range, \<open>StepForward\<close> fails
  exactly when the cursor is at \<open>len(steps) - 1\<close>, and then with \<open>ErrNoMoreSteps\<close>;
  \<open>Play\<close> fails exactly when the mode is \<open>playing\<close>, and then with
  \<open>ErrAlreadyRunning\<close> (the spec's AlreadyPlaying). A failing call returns the engine
  as it was: cursor, mode, history, speed and every other field.
\<close>

theorem control_errors_leave_engine_unchanged:
  assumes "steps e \<noteq> []" and "cursor_in_range e"
  shows "(fst (StepForward I e) = Inl ErrNoMoreSteps)
           = (currentStep e = int (length (steps e)) - 1)
       \<and> isl (fst (StepForward I e)) = (fst (StepForward I e) = Inl ErrNoMoreSteps)
       \<and> (isl (fst (StepForward I e)) \<longrightarrow> snd (StepForward I e) = e)
       \<and> (fst (Play I e) = Some ErrAlreadyRunning) = (mode e = ModePlaying)
       \<and> (fst (Play I e) \<noteq> None) = (fst (Play I e) = Some ErrAlreadyRunning)
       \<and> (fst (Play I e) \<noteq> None \<longrightarrow> snd (Play I e) = e)"
proof -
  have fwd_parts:
    "(fst (StepForward I e) = Inl ErrNoMoreSteps)
       = (currentStep e = int (length (steps e)) - 1)"
    "isl (fst (StepForward I e)) = (fst (StepForward I e) = Inl ErrNoMoreSteps)"
    "isl (fst (StepForward I e)) \<longrightarrow> snd (StepForward I e) = e"
    using assms
    by (auto simp: StepForward_def cursor_in_range_def Let_def split: prod.splits)
  have play_parts:
    "(fst (Play I e) = Some ErrAlreadyRunning) = (mode e = ModePlaying)"
    "(fst (Play I e) \<noteq> None) = (fst (Play I e) = Some ErrAlreadyRunning)"
    "fst (Play I e) \<noteq> None \<longrightarrow> snd (Play I e) = e"
    using assms by (auto simp: Play_def Let_def)
  from fwd_parts play_parts show ?thesis by blast
qed

definition engine4_end_playing :: "(SimCore, unit) Engine" where
  "engine4_end_playing = snd (Play core_sim (fwd (fwd (fwd (fwd engine4)))))"

theorem control_errors_witness:
  "steps engine4_end_playing \<noteq> [] \<and> cursor_in_range engine4_end_playing
   \<and> currentStep engine4_end_playing = 3 \<and> mode engine4_end_playing = ModePlaying
   \<and> StepForward core_sim engine4_end_playing = (Inl ErrNoMoreSteps, engine4_end_playing)
   \<and> Play core_sim engine4_end_playing = (Some ErrAlreadyRunning, engine4_end_playing)"
proof -
  have h1: "steps engine4_end_playing \<noteq> []"
    by (simp add: engine4_end_playing_def engine_defs core_defs Let_def)
  have h2: "cursor_in_range engine4_end_playing"
    by (simp add: cursor_in_range_def engine4_end_playing_def engine_defs core_defs Let_def)
  have c: "currentStep engine4_end_playing = 3" "mode engine4_end_playing = ModePlaying"
    "length (steps engine4_end_playing) = 4"
    by (simp_all add: engine4_end_playing_def engine_defs core_defs Let_def)
  from control_errors_leave_engine_unchanged [OF h1 h2, of core_sim] c h1 h2
  show ?thesis
    by (simp add: prod_eq_iff)
qed


text \<open>
  C9. \<open>SetSpeed\<close> stores its argument clamped to \<open>[0.25, 4.0]\<close> in every mode and
  touches neither the mode nor the ticker: a running \<open>playLoop\<close> keeps the period it
  computed when it started. The stored speed sets the period of the ticker that the next
  \<open>playLoop\<close> creates.
\<close>

theorem SetSpeed_clamps_for_next_playLoop:
  "speed (SetSpeed f e) = max 0.25 (min 4.0 f)
   \<and> ticker (SetSpeed f e) = ticker e
   \<and> mode (SetSpeed f e) = mode e
   \<and> currentStep (SetSpeed f e) = currentStep e
   \<and> ticker (playLoop_start (SetSpeed f e))
       = Some \<lparr>period = interval_of (max 0.25 (min 4.0 f)), stopped = False\<rparr>"
  by (simp add: SetSpeed_def emit_def playLoop_start_def Let_def max_def min_def)

theorem SetSpeed_scenario_E_witness:
  "speed (SetSpeed 10.0 engine4) = 4.0 \<and> speed (SetSpeed 0.01 engine4) = 0.25"
  using SetSpeed_clamps_for_next_playLoop [of "10.0" engine4]
    SetSpeed_clamps_for_next_playLoop [of "0.01" engine4]
  by simp

text \<open>
  The claim's last part fails: autoplay started at speed 1 ticks every second; after
  \<open>SetSpeed(2)\<close> the stored speed is 2, whose interval is half a second, but the
  ticker still has the period of one second, before and after the next tick.
\<close>

definition engine4_playing :: "(SimCore, unit) Engine" where
  "engine4_playing = playLoop_start (snd (Play core_sim engine4))"

theorem SetSpeed_next_tick_counterexample:
  "mode engine4_playing = ModePlaying
   \<and> ticker engine4_playing = Some \<lparr>period = 1000000000, stopped = False\<rparr>
   \<and> speed (SetSpeed 2 engine4_playing) = 2
   \<and> interval_of (speed (SetSpeed 2 engine4_playing)) = 500000000
   \<and> ticker (SetSpeed 2 engine4_playing) = Some \<lparr>period = 1000000000, stopped = False\<rparr>
   \<and> fst (playLoop_tick core_sim (SetSpeed 2 engine4_playing)) = True
   \<and> ticker (snd (playLoop_tick core_sim (SetSpeed 2 engine4_playing)))
       = Some \<lparr>period = 1000000000, stopped = False\<rparr>"
  by (simp add: engine4_playing_def engine_defs core_defs Let_def)

text \<open>
  Whatever speed was asked for, the period of the next \<open>playLoop\<close> lies between a
  quarter of a second and four seconds, in nanoseconds.
\<close>

lemma SetSpeed_period_in_range:
  "\<exists>p. ticker (playLoop_start (SetSpeed f e)) = Some \<lparr>period = p, stopped = False\<rparr>
       \<and> 250000000 \<le> p \<and> p \<le> 4000000000"
proof -
  define s :: real where "s = max 0.25 (min 4.0 f)"
  have b: "1 / 4 \<le> s" "s \<le> 4"
    by (simp_all add: s_def)
  have "speed (SetSpeed f e) = s"
    by (simp add: SetSpeed_def emit_def Let_def max_def min_def s_def)
  hence "ticker (playLoop_start (SetSpeed f e))
         = Some \<lparr>period = interval_of s, stopped = False\<rparr>"
    by (simp add: playLoop_start_def)
  with interval_of_bounds [OF b] show ?thesis
    by simp
qed

text \<open>
  C8. Autoplay never moves the cursor beyond the last step, but it does not pause itself
  once it has advanced: a tick that advances goes through \<open>StepForward\<close>, which sets
  the mode to \<open>step\<close>, and the \<open>Pause\<close> called at the end only acts in mode
  \<open>playing\<close>.
\<close>

lemma playLoop_tick_advance_sets_ModeStep:
  assumes "steps e \<noteq> []" and "currentStep e + 1 < int (length (steps e))"
  shows "fst (playLoop_tick I e) = True \<and> mode (snd (playLoop_tick I e)) = ModeStep
         \<and> currentStep (snd (playLoop_tick I e)) = currentStep e + 1"
  using assms
  by (auto simp: playLoop_tick_def StepForward_def emit_def Let_def split: prod.splits)

lemma playLoop_tick_at_end:
  assumes "steps e \<noteq> []" and "currentStep e + 1 \<ge> int (length (steps e))"
  shows "fst (playLoop_tick I e) = False
         \<and> currentStep (snd (playLoop_tick I e)) = currentStep e
         \<and> mode (snd (playLoop_tick I e))
             = (if mode e = ModePlaying then ModePaused else mode e)"
  using assms
  by (auto simp: playLoop_tick_def StepForward_def Pause_def emit_def Let_def)

text \<open>
  Autoplay started at cursor 2 of a four-step trace: the first tick reaches the last
  step (cursor 3) and leaves mode \<open>step\<close>; the second tick finds no more steps, ends
  the loop, and the mode is still \<open>step\<close>, not \<open>paused\<close>.
\<close>

definition engine4_play_from_2 :: "(SimCore, unit) Engine" where
  "engine4_play_from_2 = playLoop_start (snd (Play core_sim (fwd (fwd (fwd engine4)))))"

theorem autoplay_end_not_paused:
  "mode engine4_play_from_2 = ModePlaying \<and> currentStep engine4_play_from_2 = 2
   \<and> int (length (steps engine4_play_from_2)) - 1 = 3
   \<and> fst (playLoop_tick core_sim engine4_play_from_2) = True
   \<and> currentStep (snd (playLoop_tick core_sim engine4_play_from_2)) = 3
   \<and> mode (snd (playLoop_tick core_sim engine4_play_from_2)) = ModeStep
   \<and> fst (playLoop_tick core_sim (snd (playLoop_tick core_sim engine4_play_from_2))) = False
   \<and> currentStep (snd (playLoop_tick core_sim (snd (playLoop_tick core_sim engine4_play_from_2))))
       = 3
   \<and> mode (snd (playLoop_tick core_sim (snd (playLoop_tick core_sim engine4_play_from_2))))
       = ModeStep"
  by (simp add: engine4_play_from_2_def engine_defs core_defs Let_def)

text \<open>
  C6. \<open>StepForward\<close> appends to \<open>history\<close> and \<open>StepBackward\<close> reads
  \<open>history[currentStep]\<close> without ever shortening it, so the two agree only while no
  step has been taken back. When the history has one entry per step up to the cursor,
  the round trip serves the captured result of the step that was current before and
  leaves the simulation alone.
\<close>

lemma StepForward_StepBackward_aligned:
  assumes "steps e \<noteq> []" and "0 \<le> currentStep e"
    and "currentStep e + 1 < int (length (steps e))"
    and "int (length (history e)) = currentStep e + 1"
  shows "fst (StepBackward I (snd (StepForward I e)))
           = Inr (Some (history e ! nat (currentStep e)))
         \<and> currentStep (snd (StepBackward I (snd (StepForward I e)))) = currentStep e
         \<and> simulation (snd (StepBackward I (snd (StepForward I e))))
             = simulation (snd (StepForward I e))"
  using assms
  by (auto simp: StepForward_def StepBackward_def emit_def Let_def nth_append
      split: prod.splits)

text \<open>
  After forward, forward, back, forward, forward the cursor is 2, on the step described
  \<open>s2\<close>, and the history is \<open>[r0, r1, r1, r2]\<close>. One more step forward succeeds;
  the step back that follows returns to cursor 2 but serves \<open>history[2]\<close>, the result
  of step \<open>s1\<close>.
\<close>

definition engine4_at_2 :: "(SimCore, unit) Engine" where
  "engine4_at_2 = fwd (fwd (bwd (fwd (fwd engine4))))"

theorem StepBackward_serves_wrong_step:
  "currentStep engine4_at_2 = 2
   \<and> st_Description (steps engine4_at_2 ! 2) = ''s2''
   \<and> map res_Description (history engine4_at_2) = [''s0'', ''s1'', ''s1'', ''s2'']
   \<and> isl (fst (StepForward core_sim engine4_at_2)) = False
   \<and> currentStep (bwd (fwd engine4_at_2)) = 2
   \<and> map_sum id (map_option res_Description)
         (fst (StepBackward core_sim (fwd engine4_at_2))) = Inr (Some ''s1'')
   \<and> si_Description (su_Step (buildStepUpdate core_sim
         (history (fwd engine4_at_2) ! 2) (bwd (fwd engine4_at_2)))) = ''s1''
   \<and> si_Title (su_Step (buildStepUpdate core_sim
         (history (fwd engine4_at_2) ! 2) (bwd (fwd engine4_at_2)))) = ''s2''"
  by (simp add: engine4_at_2_def engine_defs core_defs Let_def)

text \<open>
  Stepping back from the first step resets the simulation, which drops its step list:
  the engine still holds four steps, and the next step forward records a failed result.
\<close>

lemma StepBackward_to_start_resets_simulation:
  "simulation (bwd (fwd engine4)) = \<lparr>sc_steps = [], sc_currentStep = -1\<rparr>
   \<and> length (steps (bwd (fwd engine4))) = 4
   \<and> map res_Success (history (fwd (bwd (fwd engine4)))) = [False]"
  by (simp add: engine_defs core_defs Let_def)

section \<open>Go values shared by the trace producers\<close>

text \<open>
  Reading a field through a nil pointer and indexing outside a slice are run-time
  panics. The producers name what they create by a counter, printed in decimal.
\<close>

datatype go_panic = NilPointerDereference | IndexOutOfRange

text \<open>\<open>fmt.Sprintf("%d", n)\<close> for a counter \<open>n \<ge> 0\<close>: its decimal digits.\<close>

definition digit_char :: "nat \<Rightarrow> char" where
  "digit_char d = ''0123456789'' ! d"

function sprint_d :: "nat \<Rightarrow> string" where
  "sprint_d n =
     (if n < 10 then [digit_char n] else sprint_d (n div 10) @ [digit_char (n mod 10)])"
  by pat_completeness auto
termination
  by (relation "measure id") auto

declare sprint_d.simps [simp del]

lemma sprint_d_not_Nil: "sprint_d n \<noteq> []"
  by (subst sprint_d.simps) simp

lemma digit_char_inj:
  assumes "a < 10" and "b < 10" and "digit_char a = digit_char b"
  shows "a = b"
proof -
  have "distinct ''0123456789''" by simp
  moreover have "a < length ''0123456789''" "b < length ''0123456789''"
    using assms by simp_all
  ultimately show ?thesis
    using assms(3) unfolding digit_char_def by (simp only: nth_eq_iff_index_eq)
qed

lemma sprint_d_small: "n < 10 \<Longrightarrow> sprint_d n = [digit_char n]"
  by (subst sprint_d.simps) simp

lemma sprint_d_large:
  "\<not> n < 10 \<Longrightarrow> sprint_d n = sprint_d (n div 10) @ [digit_char (n mod 10)]"
  by (subst sprint_d.simps) simp

lemma sprint_d_inj: "sprint_d m = sprint_d n \<Longrightarrow> m = n"
proof (induction m arbitrary: n rule: sprint_d.induct)
  case (1 m)
  show ?case
  proof (cases "m < 10")
    case True
    note m_small = True
    show ?thesis
    proof (cases "n < 10")
      case True
      with m_small "1.prems" have "digit_char m = digit_char n"
        by (simp add: sprint_d_small)
      with m_small True show ?thesis by (intro digit_char_inj)
    next
      case False
      with m_small "1.prems" have "sprint_d (n div 10) = []"
        by (simp add: sprint_d_small sprint_d_large)
      then show ?thesis by (simp add: sprint_d_not_Nil)
    qed
  next
    case False
    note m_large = False
    show ?thesis
    proof (cases "n < 10")
      case True
      with m_large "1.prems" have "sprint_d (m div 10) = []"
        by (simp add: sprint_d_small sprint_d_large)
      then show ?thesis by (simp add: sprint_d_not_Nil)
    next
      case False
      with m_large "1.prems" have e1: "sprint_d (m div 10) = sprint_d (n div 10)"
        and e2: "digit_char (m mod 10) = digit_char (n mod 10)"
        by (simp_all add: sprint_d_large)
      from "1.IH" [OF m_large e1] have d: "m div 10 = n div 10" .
      have "m mod 10 = n mod 10"
        by (rule digit_char_inj [OF _ _ e2]) simp_all
      with d show ?thesis
        by (metis div_mult_mod_eq)
    qed
  qed
qed

section \<open>MVCC store (projects/mvcc/internal/mvcc.go)\<close>

text \<open>
  Go maps are association lists with distinct keys, read with \<open>map_of\<close>, written with
  \<open>AList.update\<close> and \<open>AList.delete\<close>; a \<open>range\<close> loop visits the entries in list
  order (Go fixes no order; nothing proved below depends on it). A pointer into a map is
  the key it was read from, and assigning through it updates the entry. Timestamps are
  \<open>int64\<close> counters that start at 1 and grow by one per commit; they are modelled by
  \<open>int\<close>. A panic inside an operation is the result \<open>Panic\<close>.
\<close>

datatype TransactionStatus = TxActive | TxCommitted | TxAborted

datatype mvcc_error =
  TransactionNotFound string | TransactionNotActive string | RowNotFound string
  | NoVisibleVersion string

datatype 'a outcome = Return 'a | Failure mvcc_error | Panic go_panic

record Transaction =
  tx_ID :: string
  tx_StartTime :: int
  tx_CommitTime :: "int option"
  tx_Status :: TransactionStatus
  tx_ReadSet :: "string list"
  tx_WriteSet :: "string list"

record 'd Version =
  ver_ID :: string
  ver_RowID :: string
  ver_Data :: 'd
  ver_CreatedBy :: string
  ver_CreatedAt :: int
  ver_DeletedBy :: "string option"
  ver_DeletedAt :: "int option"
  ver_Prev :: "string option"

record Row =
  row_ID :: string
  row_CurrentVersion :: string
  row_VersionChain :: "string list"

record 'd MVCCStore =
  Transactions :: "(string \<times> Transaction) list"
  Versions :: "(string \<times> 'd Version) list"
  Rows :: "(string \<times> Row) list"
  GlobalTimestamp :: int
  ActiveTransaction :: string
  txSeq :: nat
  verSeq :: nat

definition NewMVCCStore :: "'d MVCCStore" where
  "NewMVCCStore =
     \<lparr>Transactions = [], Versions = [], Rows = [], GlobalTimestamp = 1,
      ActiveTransaction = [], txSeq = 0, verSeq = 0\<rparr>"

definition BeginTransaction :: "'d MVCCStore \<Rightarrow> Transaction \<times> 'd MVCCStore" where
  "BeginTransaction s =
     (let seq = txSeq s + 1;
          txID = ''tx-'' @ sprint_d seq;
          tx = \<lparr>tx_ID = txID, tx_StartTime = GlobalTimestamp s, tx_CommitTime = None,
                tx_Status = TxActive, tx_ReadSet = [], tx_WriteSet = []\<rparr>
      in (tx, s\<lparr>txSeq := seq, Transactions := AList.update txID tx (Transactions s),
                 ActiveTransaction := txID\<rparr>))"

text \<open>
  \<open>isVisible\<close> reads \<open>creatorTx\<close> only after the test on \<open>ver.CreatedBy\<close>, and the
  deleter's commit time only when the deleter is committed.
\<close>

definition isVisible ::
  "'d MVCCStore \<Rightarrow> Transaction \<Rightarrow> 'd Version \<Rightarrow> go_panic + bool" where
  "isVisible s tx ver =
     (if ver_CreatedBy ver = tx_ID tx then Inr True
      else
        case map_of (Transactions s) (ver_CreatedBy ver) of
          None \<Rightarrow> Inl NilPointerDereference
        | Some creatorTx \<Rightarrow>
            if tx_Status creatorTx \<noteq> TxCommitted then Inr False
            else
              (case tx_CommitTime creatorTx of
                 None \<Rightarrow> Inr False
               | Some ct \<Rightarrow>
                   if ct > tx_StartTime tx then Inr False
                   else
                     (case (ver_DeletedBy ver, ver_DeletedAt ver) of
                        (Some d, Some _) \<Rightarrow>
                          (case map_of (Transactions s) d of
                             None \<Rightarrow> Inl NilPointerDereference
                           | Some deleterTx \<Rightarrow>
                               if tx_Status deleterTx = TxCommitted then
                                 (case tx_CommitTime deleterTx of
                                    None \<Rightarrow> Inl NilPointerDereference
                                  | Some dct \<Rightarrow> Inr (\<not> dct \<le> tx_StartTime tx))
                               else Inr True)
                      | _ \<Rightarrow> Inr True)))"

text \<open>The loop of \<open>Read\<close> over the version chain, newest first; \<open>tx\<close> is the entry
  found under \<open>txID\<close>.\<close>

fun read_chain ::
  "'d MVCCStore \<Rightarrow> string \<Rightarrow> Transaction \<Rightarrow> string \<Rightarrow> string list
     \<Rightarrow> 'd Version outcome \<times> 'd MVCCStore" where
  "read_chain s txID tx rowID [] = (Failure (NoVisibleVersion rowID), s)"
| "read_chain s txID tx rowID (verID # rest) =
     (case map_of (Versions s) verID of
        None \<Rightarrow> (Panic NilPointerDereference, s)
      | Some ver \<Rightarrow>
          (case isVisible s tx ver of
             Inl p \<Rightarrow> (Panic p, s)
           | Inr True \<Rightarrow>
               (Return ver,
                s\<lparr>Transactions :=
                     AList.update txID (tx\<lparr>tx_ReadSet := tx_ReadSet tx @ [rowID]\<rparr>)
                       (Transactions s)\<rparr>)
           | Inr False \<Rightarrow> read_chain s txID tx rowID rest))"

definition Read ::
  "string \<Rightarrow> string \<Rightarrow> 'd MVCCStore \<Rightarrow> 'd Version outcome \<times> 'd MVCCStore" where
  "Read txID rowID s =
     (case map_of (Transactions s) txID of
        None \<Rightarrow> (Failure (TransactionNotFound txID), s)
      | Some tx \<Rightarrow>
          if tx_Status tx \<noteq> TxActive then (Failure (TransactionNotActive txID), s)
          else
            (case map_of (Rows s) rowID of
               None \<Rightarrow> (Failure (RowNotFound rowID), s)
             | Some row \<Rightarrow> read_chain s txID tx rowID (row_VersionChain row)))"

definition Write ::
  "string \<Rightarrow> string \<Rightarrow> 'd \<Rightarrow> 'd MVCCStore \<Rightarrow> 'd Version outcome \<times> 'd MVCCStore" where
  "Write txID rowID data s =
     (case map_of (Transactions s) txID of
        None \<Rightarrow> (Failure (TransactionNotFound txID), s)
      | Some tx \<Rightarrow>
          if tx_Status tx \<noteq> TxActive then (Failure (TransactionNotActive txID), s)
          else
            let seq = verSeq s + 1;
                verID = ''ver-'' @ sprint_d seq;
                row = (case map_of (Rows s) rowID of
                         None \<Rightarrow> \<lparr>row_ID = rowID, row_CurrentVersion = [],
                                   row_VersionChain = []\<rparr>
                       | Some r \<Rightarrow> r);
                prevVer = (if length (row_VersionChain row) > 0
                           then Some (hd (row_VersionChain row)) else None);
                version = \<lparr>ver_ID = verID, ver_RowID = rowID, ver_Data = data,
                           ver_CreatedBy = txID, ver_CreatedAt = GlobalTimestamp s,
                           ver_DeletedBy = None, ver_DeletedAt = None, ver_Prev = prevVer\<rparr>;
                row' = row\<lparr>row_VersionChain := verID # row_VersionChain row,
                           row_CurrentVersion := verID\<rparr>
            in (Return version,
                s\<lparr>verSeq := seq,
                  Versions := AList.update verID version (Versions s),
                  Rows := AList.update rowID row' (Rows s),
                  Transactions :=
                    AList.update txID (tx\<lparr>tx_WriteSet := tx_WriteSet tx @ [rowID]\<rparr>)
                      (Transactions s)\<rparr>))"

definition Delete ::
  "string \<Rightarrow> string \<Rightarrow> 'd MVCCStore \<Rightarrow> unit outcome \<times> 'd MVCCStore" where
  "Delete txID rowID s =
     (case map_of (Transactions s) txID of
        None \<Rightarrow> (Failure (TransactionNotFound txID), s)
      | Some tx \<Rightarrow>
          if tx_Status tx \<noteq> TxActive then (Failure (TransactionNotActive txID), s)
          else
            (case map_of (Rows s) rowID of
               None \<Rightarrow> (Failure (RowNotFound rowID), s)
             | Some row \<Rightarrow>
                 let tx' = tx\<lparr>tx_WriteSet := tx_WriteSet tx @ [rowID]\<rparr> in
                 if length (row_VersionChain row) > 0 then
                   (case map_of (Versions s) (hd (row_VersionChain row)) of
                      None \<Rightarrow> (Panic NilPointerDereference, s)
                    | Some ver \<Rightarrow>
                        (Return (),
                         s\<lparr>Versions :=
                              AList.update (hd (row_VersionChain row))
                                (ver\<lparr>ver_DeletedBy := Some txID,
                                      ver_DeletedAt := Some (GlobalTimestamp s)\<rparr>)
                                (Versions s),
                            Transactions := AList.update txID tx' (Transactions s)\<rparr>))
                 else
                   (Return (), s\<lparr>Transactions := AList.update txID tx' (Transactions s)\<rparr>)))"

definition Commit :: "string \<Rightarrow> 'd MVCCStore \<Rightarrow> unit outcome \<times> 'd MVCCStore" where
  "Commit txID s =
     (case map_of (Transactions s) txID of
        None \<Rightarrow> (Failure (TransactionNotFound txID), s)
      | Some tx \<Rightarrow>
          if tx_Status tx \<noteq> TxActive then (Failure (TransactionNotActive txID), s)
          else
            let commitTime = GlobalTimestamp s + 1;
                tx' = tx\<lparr>tx_CommitTime := Some commitTime, tx_Status := TxCommitted\<rparr>
            in (Return (),
                s\<lparr>GlobalTimestamp := commitTime,
                  Transactions := AList.update txID tx' (Transactions s),
                  ActiveTransaction :=
                    (if ActiveTransaction s = txID then [] else ActiveTransaction s)\<rparr>))"

text \<open>
  The inner loop of \<open>Abort\<close>: the chain is filtered into \<open>newChain\<close> while the
  versions of the aborted transaction are deleted from \<open>Versions\<close>. On a panic the
  deletions already made stay.
\<close>

fun abort_chain ::
  "string \<Rightarrow> string list \<Rightarrow> string list \<Rightarrow> (string \<times> 'd Version) list
     \<Rightarrow> go_panic option \<times> string list \<times> (string \<times> 'd Version) list" where
  "abort_chain txID [] newChain vs = (None, newChain, vs)"
| "abort_chain txID (verID # rest) newChain vs =
     (case map_of vs verID of
        None \<Rightarrow> (Some NilPointerDereference, newChain, vs)
      | Some ver \<Rightarrow>
          if ver_CreatedBy ver \<noteq> txID then abort_chain txID rest (newChain @ [verID]) vs
          else abort_chain txID rest newChain (AList.delete verID vs))"

text \<open>The outer loop of \<open>Abort\<close> over the write set.\<close>

fun abort_rows ::
  "string \<Rightarrow> string list \<Rightarrow> 'd MVCCStore \<Rightarrow> go_panic option \<times> 'd MVCCStore" where
  "abort_rows txID [] s = (None, s)"
| "abort_rows txID (rowID # rest) s =
     (case map_of (Rows s) rowID of
        None \<Rightarrow> (Some NilPointerDereference, s)
      | Some row \<Rightarrow>
          (case abort_chain txID (row_VersionChain row) [] (Versions s) of
             (Some p, newChain, vs) \<Rightarrow> (Some p, s\<lparr>Versions := vs\<rparr>)
           | (None, newChain, vs) \<Rightarrow>
               abort_rows txID rest
                 (if length newChain > 0 then
                    s\<lparr>Versions := vs,
                      Rows := AList.update rowID
                                (row\<lparr>row_VersionChain := newChain,
                                      row_CurrentVersion := hd newChain\<rparr>) (Rows s)\<rparr>
                  else s\<lparr>Versions := vs, Rows := AList.delete rowID (Rows s)\<rparr>)))"

definition Abort :: "string \<Rightarrow> 'd MVCCStore \<Rightarrow> unit outcome \<times> 'd MVCCStore" where
  "Abort txID s =
     (case map_of (Transactions s) txID of
        None \<Rightarrow> (Failure (TransactionNotFound txID), s)
      | Some tx \<Rightarrow>
          if tx_Status tx \<noteq> TxActive then (Failure (TransactionNotActive txID), s)
          else
            let s1 = s\<lparr>Transactions :=
                         AList.update txID (tx\<lparr>tx_Status := TxAborted\<rparr>) (Transactions s)\<rparr>
            in (case abort_rows txID (tx_WriteSet tx) s1 of
                  (Some p, s2) \<Rightarrow> (Panic p, s2)
                | (None, s2) \<Rightarrow>
                    (Return (),
                     s2\<lparr>ActiveTransaction :=
                          (if ActiveTransaction s2 = txID then [] else ActiveTransaction s2)\<rparr>)))"

text \<open>\<open>GarbageCollect\<close>: the threshold, the scan of one chain, the loop over the rows.\<close>

definition oldestActiveStart :: "'d MVCCStore \<Rightarrow> int" where
  "oldestActiveStart s =
     fold (\<lambda>(_, tx) oldest.
             if tx_Status tx = TxActive \<and> tx_StartTime tx < oldest
             then tx_StartTime tx else oldest)
       (Transactions s) (GlobalTimestamp s)"

fun gc_chain ::
  "(string \<times> Transaction) list \<Rightarrow> int \<Rightarrow> string list \<Rightarrow> bool \<Rightarrow> string list
     \<Rightarrow> string list \<Rightarrow> (string \<times> 'd Version) list
     \<Rightarrow> go_panic option \<times> string list \<times> string list \<times> (string \<times> 'd Version) list" where
  "gc_chain txs oldest [] foundVisible newChain removed vs = (None, newChain, removed, vs)"
| "gc_chain txs oldest (verID # rest) foundVisible newChain removed vs =
     (case map_of vs verID of
        None \<Rightarrow> (Some NilPointerDereference, newChain, removed, vs)
      | Some ver \<Rightarrow>
          (case map_of txs (ver_CreatedBy ver) of
             None \<Rightarrow> (Some NilPointerDereference, newChain, removed, vs)
           | Some creatorTx \<Rightarrow>
               if tx_Status creatorTx = TxCommitted \<and> tx_CommitTime creatorTx \<noteq> None then
                 (if the (tx_CommitTime creatorTx) < oldest \<and> foundVisible then
                    gc_chain txs oldest rest foundVisible newChain (removed @ [verID])
                      (AList.delete verID vs)
                  else gc_chain txs oldest rest True (newChain @ [verID]) removed vs)
               else gc_chain txs oldest rest foundVisible (newChain @ [verID]) removed vs))"

fun gc_rows ::
  "int \<Rightarrow> (string \<times> Row) list \<Rightarrow> string list \<Rightarrow> 'd MVCCStore
     \<Rightarrow> string list outcome \<times> 'd MVCCStore" where
  "gc_rows oldest [] removed s = (Return removed, s)"
| "gc_rows oldest ((rowID, row) # rest) removed s =
     (case gc_chain (Transactions s) oldest (row_VersionChain row) False [] removed
             (Versions s) of
        (Some p, newChain, removed', vs) \<Rightarrow> (Panic p, s\<lparr>Versions := vs\<rparr>)
      | (None, newChain, removed', vs) \<Rightarrow>
          gc_rows oldest rest removed'
            (s\<lparr>Versions := vs,
               Rows := AList.update rowID (row\<lparr>row_VersionChain := newChain\<rparr>) (Rows s)\<rparr>))"

definition GarbageCollect :: "'d MVCCStore \<Rightarrow> string list outcome \<times> 'd MVCCStore" where
  "GarbageCollect s = gc_rows (oldestActiveStart s) (Rows s) [] s"

text \<open>
  The store's operations as commands. \<open>exec\<close> gives the store an operation leaves
  behind and whether it panicked; a panic ends the process, so the reachable stores are
  those that operations reach without one.
\<close>

datatype 'd mvcc_op =
  OpBegin | OpRead string string | OpWrite string string 'd | OpDelete string string
  | OpCommit string | OpAbort string | OpGarbageCollect

definition panicked :: "'a outcome \<Rightarrow> bool" where
  "panicked r = (case r of Panic _ \<Rightarrow> True | _ \<Rightarrow> False)"

fun exec :: "'d mvcc_op \<Rightarrow> 'd MVCCStore \<Rightarrow> bool \<times> 'd MVCCStore" where
  "exec OpBegin s = (False, snd (BeginTransaction s))"
| "exec (OpRead t r) s = (panicked (fst (Read t r s)), snd (Read t r s))"
| "exec (OpWrite t r d) s = (panicked (fst (Write t r d s)), snd (Write t r d s))"
| "exec (OpDelete t r) s = (panicked (fst (Delete t r s)), snd (Delete t r s))"
| "exec (OpCommit t) s = (panicked (fst (Commit t s)), snd (Commit t s))"
| "exec (OpAbort t) s = (panicked (fst (Abort t s)), snd (Abort t s))"
| "exec OpGarbageCollect s = (panicked (fst (GarbageCollect s)), snd (GarbageCollect s))"

fun run :: "'d mvcc_op list \<Rightarrow> 'd MVCCStore \<Rightarrow> 'd MVCCStore option" where
  "run [] s = Some s"
| "run (op # ops) s = (case exec op s of (True, _) \<Rightarrow> None | (False, s') \<Rightarrow> run ops s')"

definition reachable :: "'d MVCCStore \<Rightarrow> bool" where
  "reachable s = (\<exists>ops. run ops NewMVCCStore = Some s)"

subsection \<open>Every row has a non-empty chain headed by its current version\<close>

lemma set_update_subset: "set (AList.update k v al) \<subseteq> insert (k, v) (set al)"
  by (induction al) auto

lemma set_delete_subset: "set (AList.delete k al) \<subseteq> set al"
  by (auto simp: AList.delete_eq)

definition row_ok :: "Row \<Rightarrow> bool" where
  "row_ok row =
     (row_VersionChain row \<noteq> [] \<and> row_CurrentVersion row = hd (row_VersionChain row))"

definition chain_inv :: "'d MVCCStore \<Rightarrow> bool" where
  "chain_inv s = (\<forall>(r, row) \<in> set (Rows s). row_ok row)"

lemma chain_inv_Rows_eq: "Rows s' = Rows s \<Longrightarrow> chain_inv s' = chain_inv s"
  by (simp add: chain_inv_def)

lemma chain_inv_update:
  assumes "chain_inv s" and "row_ok row" and "Rows s' = AList.update r row (Rows s)"
  shows "chain_inv s'"
  using assms set_update_subset [of r row "Rows s"]
  by (auto simp: chain_inv_def)

lemma chain_inv_delete:
  assumes "chain_inv s" and "Rows s' = AList.delete r (Rows s)"
  shows "chain_inv s'"
  using assms set_delete_subset [of r "Rows s"]
  by (auto simp: chain_inv_def)

lemma chain_inv_lookup:
  "chain_inv s \<Longrightarrow> map_of (Rows s) r = Some row \<Longrightarrow> row_ok row"
  by (auto simp: chain_inv_def dest: map_of_SomeD)

lemma read_chain_Rows: "Rows (snd (read_chain s txID tx rowID chain)) = Rows s"
  by (induction chain) (auto split: option.splits sum.splits bool.splits)

lemma Read_Rows: "Rows (snd (Read t r s)) = Rows s"
  by (simp add: Read_def read_chain_Rows split: option.splits)

lemma chain_inv_Read: "chain_inv s \<Longrightarrow> chain_inv (snd (Read t r s))"
  by (simp add: chain_inv_def Read_Rows)

lemma chain_inv_Begin: "chain_inv s \<Longrightarrow> chain_inv (snd (BeginTransaction s))"
  by (simp add: BeginTransaction_def Let_def chain_inv_def)

lemma chain_inv_Write:
  assumes "chain_inv s"
  shows "chain_inv (snd (Write t r d s))"
proof (cases "\<exists>tx. map_of (Transactions s) t = Some tx \<and> tx_Status tx = TxActive")
  case False
  then show ?thesis
    using assms by (auto simp: Write_def split: option.splits)
next
  case True
  then obtain tx where tx: "map_of (Transactions s) t = Some tx" "tx_Status tx = TxActive"
    by blast
  define row where "row = (case map_of (Rows s) r of
      None \<Rightarrow> \<lparr>row_ID = r, row_CurrentVersion = [], row_VersionChain = []\<rparr> | Some x \<Rightarrow> x)"
  define verID where "verID = ''ver-'' @ sprint_d (verSeq s + 1)"
  define row' where "row' = row\<lparr>row_VersionChain := verID # row_VersionChain row,
      row_CurrentVersion := verID\<rparr>"
  have ok: "row_ok row'"
    by (simp add: row'_def row_ok_def)
  have "Rows (snd (Write t r d s)) = AList.update r row' (Rows s)"
    using tx by (simp add: Write_def Let_def row_def row'_def verID_def)
  with assms ok show ?thesis
    by (rule chain_inv_update)
qed

lemma chain_inv_Delete: "chain_inv s \<Longrightarrow> chain_inv (snd (Delete t r s))"
  by (auto simp: Delete_def Let_def chain_inv_def split: option.splits)

lemma chain_inv_Commit: "chain_inv s \<Longrightarrow> chain_inv (snd (Commit t s))"
  by (auto simp: Commit_def Let_def chain_inv_def split: option.splits)

lemma chain_inv_abort_rows: "chain_inv s \<Longrightarrow> chain_inv (snd (abort_rows txID ws s))"
proof (induction ws arbitrary: s)
  case Nil
  then show ?case by simp
next
  case (Cons rowID rest)
  show ?case
  proof (cases "map_of (Rows s) rowID")
    case None
    with Cons.prems show ?thesis by simp
  next
    case (Some row)
    obtain p newChain vs where ac:
      "abort_chain txID (row_VersionChain row) [] (Versions s) = (p, newChain, vs)"
      by (cases "abort_chain txID (row_VersionChain row) [] (Versions s)")
    show ?thesis
    proof (cases p)
      case (Some q)
      with Cons.prems \<open>map_of (Rows s) rowID = Some row\<close> ac show ?thesis
        by (simp add: chain_inv_def)
    next
      case None
      define s' where "s' = (if length newChain > 0 then
            s\<lparr>Versions := vs,
              Rows := AList.update rowID
                        (row\<lparr>row_VersionChain := newChain,
                              row_CurrentVersion := hd newChain\<rparr>) (Rows s)\<rparr>
          else s\<lparr>Versions := vs, Rows := AList.delete rowID (Rows s)\<rparr>)"
      have "chain_inv s'"
      proof (cases "length newChain > 0")
        case True
        have "row_ok (row\<lparr>row_VersionChain := newChain, row_CurrentVersion := hd newChain\<rparr>)"
          using True by (simp add: row_ok_def)
        moreover have "Rows s' = AList.update rowID
            (row\<lparr>row_VersionChain := newChain, row_CurrentVersion := hd newChain\<rparr>) (Rows s)"
          using True by (simp add: s'_def)
        ultimately show ?thesis
          using Cons.prems by (intro chain_inv_update [of s _ s' rowID])
      next
        case False
        then have "Rows s' = AList.delete rowID (Rows s)"
          by (simp add: s'_def)
        with Cons.prems show ?thesis by (rule chain_inv_delete)
      qed
      then have "chain_inv (snd (abort_rows txID rest s'))"
        by (rule Cons.IH)
      moreover have "abort_rows txID (rowID # rest) s = abort_rows txID rest s'"
        using \<open>map_of (Rows s) rowID = Some row\<close> ac None by (simp add: s'_def)
      ultimately show ?thesis by simp
    qed
  qed
qed

lemma chain_inv_Abort:
  assumes "chain_inv s"
  shows "chain_inv (snd (Abort t s))"
proof (cases "\<exists>tx. map_of (Transactions s) t = Some tx \<and> tx_Status tx = TxActive")
  case False
  then show ?thesis
    using assms by (auto simp: Abort_def split: option.splits)
next
  case True
  then obtain tx where tx: "map_of (Transactions s) t = Some tx" "tx_Status tx = TxActive"
    by blast
  define s1 where "s1 = s\<lparr>Transactions :=
      AList.update t (tx\<lparr>tx_Status := TxAborted\<rparr>) (Transactions s)\<rparr>"
  have "chain_inv s1"
    using assms by (simp add: s1_def chain_inv_def)
  then have a: "chain_inv (snd (abort_rows t (tx_WriteSet tx) s1))"
    by (rule chain_inv_abort_rows)
  obtain p s2 where ar: "abort_rows t (tx_WriteSet tx) s1 = (p, s2)"
    by (cases "abort_rows t (tx_WriteSet tx) s1")
  with a have "chain_inv s2" by simp
  then show ?thesis
    using tx ar by (cases p) (simp_all add: Abort_def Let_def s1_def [symmetric] chain_inv_def)
qed

lemma gc_chain_extends:
  "gc_chain txs oldest chain found acc removed vs = (p, newChain, removed', vs')
   \<Longrightarrow> \<exists>suffix. newChain = acc @ suffix"
proof (induction chain arbitrary: found acc removed vs)
  case Nil
  then show ?case by simp
next
  case (Cons verID rest)
  show ?case
  proof (cases "map_of vs verID")
    case None
    with Cons.prems show ?thesis by simp
  next
    case (Some ver)
    note ver = Some
    show ?thesis
    proof (cases "map_of txs (ver_CreatedBy ver)")
      case None
      with Cons.prems ver show ?thesis by simp
    next
      case (Some creatorTx)
      consider (drop) "gc_chain txs oldest rest found acc (removed @ [verID])
                          (AList.delete verID vs) = (p, newChain, removed', vs')"
        | (keep) f where "gc_chain txs oldest rest f (acc @ [verID]) removed vs
                          = (p, newChain, removed', vs')"
        using Cons.prems ver Some by (auto split: if_splits)
      then show ?thesis
      proof cases
        case drop
        then show ?thesis by (rule Cons.IH)
      next
        case keep
        from Cons.IH [OF keep] show ?thesis by auto
      qed
    qed
  qed
qed

lemma gc_chain_keeps_head:
  assumes "chain \<noteq> []"
    and "gc_chain txs oldest chain False [] removed vs = (None, newChain, removed', vs')"
  shows "newChain \<noteq> [] \<and> hd newChain = hd chain"
proof -
  obtain verID rest where chain: "chain = verID # rest"
    using assms(1) by (cases chain) auto
  from assms(2) obtain f where
    "gc_chain txs oldest rest f [verID] removed vs = (None, newChain, removed', vs')"
    unfolding chain by (auto split: option.splits if_splits)
  from gc_chain_extends [OF this] show ?thesis
    by (auto simp: chain)
qed

lemma chain_inv_gc_rows:
  assumes "\<forall>(r, row) \<in> set rows. row_ok row" and "chain_inv s"
  shows "chain_inv (snd (gc_rows oldest rows removed s))"
  using assms
proof (induction rows arbitrary: removed s)
  case Nil
  then show ?case by simp
next
  case (Cons entry rest)
  obtain rowID row where entry: "entry = (rowID, row)"
    by (cases entry)
  have row: "row_ok row" using Cons.prems(1) entry by simp
  obtain p newChain removed' vs where gc:
    "gc_chain (Transactions s) oldest (row_VersionChain row) False [] removed (Versions s)
       = (p, newChain, removed', vs)"
    by (cases "gc_chain (Transactions s) oldest (row_VersionChain row) False [] removed
                 (Versions s)") auto
  show ?case
  proof (cases p)
    case (Some q)
    with gc entry Cons.prems(2) show ?thesis by (simp add: chain_inv_def)
  next
    case None
    define s' where "s' = s\<lparr>Versions := vs,
        Rows := AList.update rowID (row\<lparr>row_VersionChain := newChain\<rparr>) (Rows s)\<rparr>"
    from row have "row_VersionChain row \<noteq> []" by (simp add: row_ok_def)
    from gc_chain_keeps_head [OF this gc [unfolded None]] row
    have "row_ok (row\<lparr>row_VersionChain := newChain\<rparr>)"
      by (simp add: row_ok_def)
    moreover have "Rows s' = AList.update rowID (row\<lparr>row_VersionChain := newChain\<rparr>) (Rows s)"
      by (simp add: s'_def)
    ultimately have "chain_inv s'"
      using Cons.prems(2) by (intro chain_inv_update [of s _ s' rowID])
    moreover have "\<forall>(r, row) \<in> set rest. row_ok row"
      using Cons.prems(1) by simp
    ultimately have "chain_inv (snd (gc_rows oldest rest removed' s'))"
      by (intro Cons.IH)
    moreover have "gc_rows oldest (entry # rest) removed s = gc_rows oldest rest removed' s'"
      using gc None entry by (simp add: s'_def)
    ultimately show ?thesis by simp
  qed
qed

lemma chain_inv_GarbageCollect: "chain_inv s \<Longrightarrow> chain_inv (snd (GarbageCollect s))"
  unfolding GarbageCollect_def
  by (rule chain_inv_gc_rows) (simp_all add: chain_inv_def)

lemma chain_inv_exec: "chain_inv s \<Longrightarrow> chain_inv (snd (exec op s))"
  by (cases op)
    (simp_all add: chain_inv_Begin chain_inv_Read chain_inv_Write chain_inv_Delete
      chain_inv_Commit chain_inv_Abort chain_inv_GarbageCollect)

lemma chain_inv_New: "chain_inv NewMVCCStore"
  by (simp add: chain_inv_def NewMVCCStore_def)

lemma chain_inv_run: "chain_inv s \<Longrightarrow> run ops s = Some s' \<Longrightarrow> chain_inv s'"
proof (induction ops arbitrary: s)
  case Nil
  then show ?case by simp
next
  case (Cons op ops)
  obtain b s1 where ex: "exec op s = (b, s1)"
    by (cases "exec op s")
  with Cons.prems(2) have "run ops s1 = Some s'" and "\<not> b"
    by (auto split: bool.splits)
  moreover have "chain_inv s1"
    using chain_inv_exec [OF Cons.prems(1), of op] ex by simp
  ultimately show ?case
    using Cons.IH by blast
qed


text \<open>\<open>Abort\<close> drops a row of the write set whose versions all come from the aborted
  transaction.\<close>

lemma abort_chain_versions:
  "abort_chain txID chain acc vs = (p, newChain, vs') \<Longrightarrow> map_of vs' v = Some V
   \<Longrightarrow> map_of vs v = Some V"
proof (induction chain arbitrary: acc vs)
  case Nil
  then show ?case by simp
next
  case (Cons verID rest)
  show ?case
  proof (cases "map_of vs verID")
    case None
    with Cons.prems show ?thesis by simp
  next
    case (Some ver)
    show ?thesis
    proof (cases "ver_CreatedBy ver \<noteq> txID")
      case True
      with Cons.prems Some have "abort_chain txID rest (acc @ [verID]) vs = (p, newChain, vs')"
        by simp
      from Cons.IH [OF this Cons.prems(2)] show ?thesis .
    next
      case False
      with Cons.prems Some
      have "abort_chain txID rest acc (AList.delete verID vs) = (p, newChain, vs')"
        by simp
      from Cons.IH [OF this Cons.prems(2)] show ?thesis
        by (simp add: delete_conv' split: if_splits)
    qed
  qed
qed

lemma abort_chain_all_own:
  "abort_chain txID chain acc vs = (None, newChain, vs')
   \<Longrightarrow> \<forall>v \<in> set chain. \<forall>V. map_of vs v = Some V \<longrightarrow> ver_CreatedBy V = txID
   \<Longrightarrow> newChain = acc"
proof (induction chain arbitrary: acc vs)
  case Nil
  then show ?case by simp
next
  case (Cons verID rest)
  show ?case
  proof (cases "map_of vs verID")
    case None
    with Cons.prems show ?thesis by simp
  next
    case (Some ver)
    with Cons.prems(2) have own: "ver_CreatedBy ver = txID" by simp
    with Cons.prems(1) Some
    have step: "abort_chain txID rest acc (AList.delete verID vs) = (None, newChain, vs')"
      by simp
    have "\<forall>v \<in> set rest. \<forall>V. map_of (AList.delete verID vs) v = Some V
            \<longrightarrow> ver_CreatedBy V = txID"
      using Cons.prems(2) by (simp add: delete_conv' split: if_splits)
    from Cons.IH [OF step this] show ?thesis .
  qed
qed

lemma abort_rows_drops_row:
  assumes "abort_rows txID ws s = (None, s')"
    and "map_of (Rows s) r = Some row"
    and "\<forall>v \<in> set (row_VersionChain row). \<forall>V. map_of (Versions s) v = Some V
           \<longrightarrow> ver_CreatedBy V = txID"
  shows "map_of (Rows s') r = (if r \<in> set ws then None else Some row)"
  using assms
proof (induction ws arbitrary: s)
  case Nil
  then show ?case by simp
next
  case (Cons rowID rest)
  from Cons.prems(1) obtain row0 where row0: "map_of (Rows s) rowID = Some row0"
    by (cases "map_of (Rows s) rowID") auto
  obtain p newChain vs where ac:
    "abort_chain txID (row_VersionChain row0) [] (Versions s) = (p, newChain, vs)"
    by (cases "abort_chain txID (row_VersionChain row0) [] (Versions s)")
  from Cons.prems(1) row0 ac have p: "p = None"
    by (cases p) auto
  define s1 where "s1 = (if length newChain > 0 then
        s\<lparr>Versions := vs,
          Rows := AList.update rowID
                    (row0\<lparr>row_VersionChain := newChain,
                           row_CurrentVersion := hd newChain\<rparr>) (Rows s)\<rparr>
      else s\<lparr>Versions := vs, Rows := AList.delete rowID (Rows s)\<rparr>)"
  have rec: "abort_rows txID rest s1 = (None, s')"
    using Cons.prems(1) row0 ac p by (simp add: s1_def)
  have vs1: "Versions s1 = vs"
    by (simp add: s1_def)
  have own1: "\<forall>v \<in> set (row_VersionChain row). \<forall>V. map_of (Versions s1) v = Some V
                \<longrightarrow> ver_CreatedBy V = txID"
    using Cons.prems(3) abort_chain_versions [OF ac] vs1 by blast
  show ?case
  proof (cases "rowID = r")
    case True
    with row0 Cons.prems(2) have "row0 = row" by simp
    with ac p Cons.prems(3) have "newChain = []"
      using abort_chain_all_own [of txID "row_VersionChain row" "[]" "Versions s" newChain vs]
      by simp
    then have gone: "map_of (Rows s1) r = None"
      using True by (simp add: s1_def delete_conv')
    have "r \<notin> set rest"
    proof
      assume "r \<in> set rest"
      then obtain a b where rest: "rest = a @ r # b" and "r \<notin> set a"
        by (meson split_list_first)
      have "\<And>s2. map_of (Rows s2) r = None \<Longrightarrow> r \<notin> set a
              \<Longrightarrow> fst (abort_rows txID (a @ r # b) s2) \<noteq> None"
      proof (induction a)
        case Nil
        then show ?case by simp
      next
        case (Cons x a)
        show ?case
        proof (cases "map_of (Rows s2) x")
          case None
          then show ?thesis by simp
        next
          case (Some rx)
          obtain q nc vx where acx:
            "abort_chain txID (row_VersionChain rx) [] (Versions s2) = (q, nc, vx)"
            by (cases "abort_chain txID (row_VersionChain rx) [] (Versions s2)")
          show ?thesis
          proof (cases q)
            case (Some z)
            with \<open>map_of (Rows s2) x = Some rx\<close> acx show ?thesis by simp
          next
            case None
            from Cons.prems have xr: "x \<noteq> r" and ra: "r \<notin> set a" by auto
            define s3 where "s3 = (if length nc > 0 then
                s2\<lparr>Versions := vx,
                   Rows := AList.update x
                     (rx\<lparr>row_VersionChain := nc, row_CurrentVersion := hd nc\<rparr>) (Rows s2)\<rparr>
              else s2\<lparr>Versions := vx, Rows := AList.delete x (Rows s2)\<rparr>)"
            have "map_of (Rows s3) r = None"
              using Cons.prems(1) xr by (simp add: s3_def update_conv' delete_conv')
            from Cons.IH [OF this ra]
            have "fst (abort_rows txID (a @ r # b) s3) \<noteq> None" .
            moreover have "abort_rows txID ((x # a) @ r # b) s2
                = abort_rows txID (a @ r # b) s3"
              using \<open>map_of (Rows s2) x = Some rx\<close> acx None by (simp add: s3_def)
            ultimately show ?thesis by simp
          qed
        qed
      qed
      from this [OF gone \<open>r \<notin> set a\<close>] rec rest show False by simp
    qed
    with rec gone True show ?thesis
    proof -
      have "\<And>s2. abort_rows txID rest s2 = (None, s') \<Longrightarrow> r \<notin> set rest
              \<Longrightarrow> map_of (Rows s') r = map_of (Rows s2) r"
      proof (induction rest)
        case Nil
        then show ?case by simp
      next
        case (Cons x xs)
        from Cons.prems(1) obtain rx where rx: "map_of (Rows s2) x = Some rx"
          by (cases "map_of (Rows s2) x") auto
        obtain q nc vx where acx:
          "abort_chain txID (row_VersionChain rx) [] (Versions s2) = (q, nc, vx)"
          by (cases "abort_chain txID (row_VersionChain rx) [] (Versions s2)")
        from Cons.prems(1) rx acx have q: "q = None" by (cases q) auto
        define s3 where "s3 = (if length nc > 0 then
            s2\<lparr>Versions := vx,
               Rows := AList.update x
                 (rx\<lparr>row_VersionChain := nc, row_CurrentVersion := hd nc\<rparr>) (Rows s2)\<rparr>
          else s2\<lparr>Versions := vx, Rows := AList.delete x (Rows s2)\<rparr>)"
        have "abort_rows txID xs s3 = (None, s')"
          using Cons.prems(1) rx acx q by (simp add: s3_def)
        moreover from Cons.prems(2) have "r \<notin> set xs" and "x \<noteq> r" by auto
        ultimately have "map_of (Rows s') r = map_of (Rows s3) r"
          using Cons.IH by blast
        also have "\<dots> = map_of (Rows s2) r"
          using \<open>x \<noteq> r\<close> by (simp add: s3_def update_conv' delete_conv')
        finally show ?case .
      qed
      from this [OF rec \<open>r \<notin> set rest\<close>] gone True show ?thesis by simp
    qed
  next
    case False
    then have "map_of (Rows s1) r = Some row"
      using Cons.prems(2) by (simp add: s1_def update_conv' delete_conv')
    from Cons.IH [OF rec this own1] False show ?thesis by simp
  qed
qed

lemma Abort_drops_row:
  assumes "Abort t s = (Return (), s')"
    and "map_of (Transactions s) t = Some tx"
    and "r \<in> set (tx_WriteSet tx)"
    and "map_of (Rows s) r = Some row"
    and "\<forall>v \<in> set (row_VersionChain row). \<forall>V. map_of (Versions s) v = Some V
           \<longrightarrow> ver_CreatedBy V = t"
  shows "map_of (Rows s') r = None"
proof -
  define s1 where "s1 = s\<lparr>Transactions :=
      AList.update t (tx\<lparr>tx_Status := TxAborted\<rparr>) (Transactions s)\<rparr>"
  from assms(1,2) have act: "tx_Status tx = TxActive"
    by (auto simp: Abort_def split: if_splits)
  obtain p s2 where ar: "abort_rows t (tx_WriteSet tx) s1 = (p, s2)"
    by (cases "abort_rows t (tx_WriteSet tx) s1")
  from assms(1,2) act ar have p: "p = None" and s': "Rows s' = Rows s2"
    by (cases p; auto simp: Abort_def Let_def s1_def [symmetric])+
  have "map_of (Rows s2) r = (if r \<in> set (tx_WriteSet tx) then None else Some row)"
    by (rule abort_rows_drops_row [OF ar [unfolded p]]) (use assms(4,5) in \<open>simp_all add: s1_def\<close>)
  with assms(3) s' show ?thesis by simp
qed

text \<open>
  C10. In every reachable store each row has a non-empty version chain whose first
  element is its \<open>CurrentVersion\<close>; every operation keeps this, also when it returns
  an error or panics half way; and an \<open>Abort\<close> that returns has removed each row of
  the write set all of whose versions the aborted transaction created.
\<close>

theorem chain_head_invariant:
  assumes "reachable s"
  shows "chain_inv s
       \<and> chain_inv (snd (exec op s))
       \<and> (map_of (Rows s) r = Some row \<longrightarrow>
            row_VersionChain row \<noteq> [] \<and> row_CurrentVersion row = hd (row_VersionChain row))
       \<and> (Abort t s = (Return (), s') \<and> map_of (Transactions s) t = Some tx
            \<and> r \<in> set (tx_WriteSet tx) \<and> map_of (Rows s) r = Some row
            \<and> (\<forall>v \<in> set (row_VersionChain row). \<forall>V. map_of (Versions s) v = Some V
                  \<longrightarrow> ver_CreatedBy V = t)
          \<longrightarrow> map_of (Rows s') r = None)"
proof -
  from assms obtain ops where "run ops NewMVCCStore = Some s"
    by (auto simp: reachable_def)
  with chain_inv_New have inv: "chain_inv s"
    by (rule chain_inv_run)
  then have "chain_inv (snd (exec op s))"
    by (rule chain_inv_exec)
  moreover have "map_of (Rows s) r = Some row \<longrightarrow>
      row_VersionChain row \<noteq> [] \<and> row_CurrentVersion row = hd (row_VersionChain row)"
    using chain_inv_lookup [OF inv, of r row] by (simp add: row_ok_def)
  moreover have "Abort t s = (Return (), s') \<and> map_of (Transactions s) t = Some tx
      \<and> r \<in> set (tx_WriteSet tx) \<and> map_of (Rows s) r = Some row
      \<and> (\<forall>v \<in> set (row_VersionChain row). \<forall>V. map_of (Versions s) v = Some V
            \<longrightarrow> ver_CreatedBy V = t)
      \<longrightarrow> map_of (Rows s') r = None"
    using Abort_drops_row [of t s s' tx r row] by blast
  ultimately show ?thesis
    using inv by blast
qed

lemmas mvcc_eval =
  NewMVCCStore_def BeginTransaction_def Read_def Write_def Delete_def Commit_def Abort_def
  GarbageCollect_def oldestActiveStart_def isVisible_def panicked_def Let_def
  sprint_d_small digit_char_def

definition store_one_write :: "(string \<times> string) list MVCCStore" where
  "store_one_write =
     snd (Write ''tx-1'' ''users:1'' [(''name'', ''A'')] (snd (BeginTransaction NewMVCCStore)))"

lemma reachable_store_one_write: "reachable store_one_write"
  unfolding reachable_def
  by (rule exI [of _ "[OpBegin, OpWrite ''tx-1'' ''users:1'' [(''name'', ''A'')]]"])
     (simp add: store_one_write_def mvcc_eval)

theorem chain_head_invariant_witness:
  "reachable store_one_write
   \<and> map_of (Rows store_one_write) ''users:1''
       = Some \<lparr>row_ID = ''users:1'', row_CurrentVersion = ''ver-1'',
               row_VersionChain = [''ver-1'']\<rparr>
   \<and> chain_inv store_one_write
   \<and> chain_inv (snd (exec (OpAbort ''tx-1'') store_one_write))
   \<and> fst (Abort ''tx-1'' store_one_write) = Return ()
   \<and> map_of (Rows (snd (Abort ''tx-1'' store_one_write))) ''users:1'' = None"
proof -
  have row: "map_of (Rows store_one_write) ''users:1''
      = Some \<lparr>row_ID = ''users:1'', row_CurrentVersion = ''ver-1'',
              row_VersionChain = [''ver-1'']\<rparr>"
    by (simp add: store_one_write_def mvcc_eval)
  have tx: "map_of (Transactions store_one_write) ''tx-1''
      = Some \<lparr>tx_ID = ''tx-1'', tx_StartTime = 1, tx_CommitTime = None,
              tx_Status = TxActive, tx_ReadSet = [], tx_WriteSet = [''users:1'']\<rparr>"
    by (simp add: store_one_write_def mvcc_eval)
  have ab: "fst (Abort ''tx-1'' store_one_write) = Return ()"
    by (simp add: store_one_write_def mvcc_eval)
  then have ab': "Abort ''tx-1'' store_one_write
      = (Return (), snd (Abort ''tx-1'' store_one_write))"
    by (simp add: prod_eq_iff)
  have own: "\<forall>v \<in> set [''ver-1'']. \<forall>V. map_of (Versions store_one_write) v = Some V
      \<longrightarrow> ver_CreatedBy V = ''tx-1''"
    by (simp add: store_one_write_def mvcc_eval)
  from chain_head_invariant [OF reachable_store_one_write,
      of "OpAbort ''tx-1''" "''users:1''"
         "\<lparr>row_ID = ''users:1'', row_CurrentVersion = ''ver-1'',
           row_VersionChain = [''ver-1'']\<rparr>"
         "''tx-1''" "snd (Abort ''tx-1'' store_one_write)"
         "\<lparr>tx_ID = ''tx-1'', tx_StartTime = 1, tx_CommitTime = None,
           tx_Status = TxActive, tx_ReadSet = [], tx_WriteSet = [''users:1'']\<rparr>"]
    row tx ab ab' own reachable_store_one_write
  show ?thesis by simp
qed

subsection \<open>Transactions keep their timestamps\<close>

text \<open>
  \<open>tx_inv\<close>: an entry of \<open>Transactions\<close> is stored under its own id, which is one
  of the ids handed out so far; start and commit times are at most the clock, and a
  committed transaction has a commit time. \<open>ver_inv\<close>: the creator and the deleter of
  a version are entries of \<open>Transactions\<close>, and \<open>DeletedBy\<close> and \<open>DeletedAt\<close> are
  set together.
\<close>

definition tx_inv :: "'d MVCCStore \<Rightarrow> bool" where
  "tx_inv s =
     (\<forall>k T. map_of (Transactions s) k = Some T \<longrightarrow>
        tx_ID T = k \<and> tx_StartTime T \<le> GlobalTimestamp s
        \<and> (tx_Status T = TxCommitted \<longrightarrow>
              (\<exists>c. tx_CommitTime T = Some c \<and> c \<le> GlobalTimestamp s))
        \<and> (\<exists>n. n \<le> txSeq s \<and> k = ''tx-'' @ sprint_d n))"

definition ver_inv :: "'d MVCCStore \<Rightarrow> bool" where
  "ver_inv s =
     (\<forall>v V. map_of (Versions s) v = Some V \<longrightarrow>
        ver_CreatedBy V \<in> dom (map_of (Transactions s))
        \<and> (\<forall>d. ver_DeletedBy V = Some d \<longrightarrow> d \<in> dom (map_of (Transactions s)))
        \<and> (ver_DeletedAt V = None) = (ver_DeletedBy V = None))"

text \<open>
  \<open>tx_persist s s'\<close>: the clock does not go back, and a transaction of \<open>s\<close> is still
  there in \<open>s'\<close> with its start time and, once committed, its commit time.
\<close>

definition tx_persist :: "'d MVCCStore \<Rightarrow> 'd MVCCStore \<Rightarrow> bool" where
  "tx_persist s s' =
     (GlobalTimestamp s \<le> GlobalTimestamp s'
      \<and> (\<forall>k T. map_of (Transactions s) k = Some T \<longrightarrow>
            (\<exists>T'. map_of (Transactions s') k = Some T'
                  \<and> tx_StartTime T' = tx_StartTime T
                  \<and> (tx_Status T = TxCommitted \<longrightarrow>
                        tx_Status T' = TxCommitted \<and> tx_CommitTime T' = tx_CommitTime T))))"

lemma tx_persist_refl: "tx_persist s s"
  by (simp add: tx_persist_def)

lemma tx_persist_trans: "tx_persist a b \<Longrightarrow> tx_persist b c \<Longrightarrow> tx_persist a c"
  unfolding tx_persist_def
  by (smt (verit, best) order_trans)

lemma tx_persist_same:
  "Transactions s' = Transactions s \<Longrightarrow> GlobalTimestamp s' = GlobalTimestamp s
   \<Longrightarrow> tx_persist s s'"
  by (simp add: tx_persist_def)

lemma tx_inv_same:
  "tx_inv s \<Longrightarrow> Transactions s' = Transactions s \<Longrightarrow> GlobalTimestamp s' = GlobalTimestamp s
   \<Longrightarrow> txSeq s' = txSeq s \<Longrightarrow> tx_inv s'"
  by (simp add: tx_inv_def)

lemma tx_inv_touch:
  assumes "tx_inv s" and "map_of (Transactions s) k = Some T"
    and "Transactions s' = AList.update k T' (Transactions s)"
    and "GlobalTimestamp s \<le> GlobalTimestamp s'" and "txSeq s' = txSeq s"
    and "tx_ID T' = tx_ID T" and "tx_StartTime T' = tx_StartTime T"
    and "tx_Status T' = TxCommitted \<longrightarrow>
           (\<exists>c. tx_CommitTime T' = Some c \<and> c \<le> GlobalTimestamp s')"
  shows "tx_inv s'"
  unfolding tx_inv_def
proof (intro allI impI)
  fix j U
  assume j: "map_of (Transactions s') j = Some U"
  show "tx_ID U = j \<and> tx_StartTime U \<le> GlobalTimestamp s'
        \<and> (tx_Status U = TxCommitted \<longrightarrow>
              (\<exists>c. tx_CommitTime U = Some c \<and> c \<le> GlobalTimestamp s'))
        \<and> (\<exists>n. n \<le> txSeq s' \<and> j = ''tx-'' @ sprint_d n)"
  proof (cases "j = k")
    case True
    with j assms(3) have "U = T'" by (simp add: update_conv')
    moreover from assms(1,2) have "tx_ID T = k" "tx_StartTime T \<le> GlobalTimestamp s"
      "\<exists>n. n \<le> txSeq s \<and> k = ''tx-'' @ sprint_d n"
      unfolding tx_inv_def by blast+
    ultimately show ?thesis
      using True assms(4-8) by auto
  next
    case False
    with j assms(3) have old: "map_of (Transactions s) j = Some U"
      by (simp add: update_conv')
    from assms(1) old have "tx_ID U = j" "tx_StartTime U \<le> GlobalTimestamp s"
      "tx_Status U = TxCommitted \<longrightarrow> (\<exists>c. tx_CommitTime U = Some c \<and> c \<le> GlobalTimestamp s)"
      "\<exists>n. n \<le> txSeq s \<and> j = ''tx-'' @ sprint_d n"
      unfolding tx_inv_def by blast+
    then show ?thesis
      using assms(4,5) by (auto intro: order_trans)
  qed
qed

lemma tx_persist_touch:
  assumes "map_of (Transactions s) k = Some T"
    and "Transactions s' = AList.update k T' (Transactions s)"
    and "GlobalTimestamp s \<le> GlobalTimestamp s'"
    and "tx_StartTime T' = tx_StartTime T"
    and "tx_Status T = TxCommitted \<longrightarrow>
           tx_Status T' = TxCommitted \<and> tx_CommitTime T' = tx_CommitTime T"
  shows "tx_persist s s'"
  unfolding tx_persist_def
  using assms by (auto simp: update_conv')

lemma dom_touch:
  "map_of (Transactions s) k = Some T \<Longrightarrow> Transactions s' = AList.update k T' (Transactions s)
   \<Longrightarrow> dom (map_of (Transactions s')) = dom (map_of (Transactions s))"
  by (auto simp: update_conv')

lemma ver_inv_shrink:
  assumes "ver_inv s"
    and "dom (map_of (Transactions s)) \<subseteq> dom (map_of (Transactions s'))"
    and "\<And>v V. map_of (Versions s') v = Some V \<Longrightarrow> map_of (Versions s) v = Some V"
  shows "ver_inv s'"
  unfolding ver_inv_def
proof (intro allI impI)
  fix v V
  assume "map_of (Versions s') v = Some V"
  then have "map_of (Versions s) v = Some V" by (rule assms(3))
  with assms(1) have "ver_CreatedBy V \<in> dom (map_of (Transactions s))"
    "\<forall>d. ver_DeletedBy V = Some d \<longrightarrow> d \<in> dom (map_of (Transactions s))"
    "(ver_DeletedAt V = None) = (ver_DeletedBy V = None)"
    unfolding ver_inv_def by blast+
  with assms(2) show "ver_CreatedBy V \<in> dom (map_of (Transactions s'))
      \<and> (\<forall>d. ver_DeletedBy V = Some d \<longrightarrow> d \<in> dom (map_of (Transactions s')))
      \<and> (ver_DeletedAt V = None) = (ver_DeletedBy V = None)"
    by blast
qed

definition store_inv :: "'d MVCCStore \<Rightarrow> bool" where
  "store_inv s = (tx_inv s \<and> ver_inv s)"

text \<open>BeginTransaction\<close>

lemma Begin_fresh:
  assumes "tx_inv s"
  shows "map_of (Transactions s) (''tx-'' @ sprint_d (txSeq s + 1)) = None"
proof (rule ccontr)
  assume "map_of (Transactions s) (''tx-'' @ sprint_d (txSeq s + 1)) \<noteq> None"
  then obtain T where "map_of (Transactions s) (''tx-'' @ sprint_d (txSeq s + 1)) = Some T"
    by blast
  with assms obtain n where "n \<le> txSeq s"
    and "''tx-'' @ sprint_d (txSeq s + 1) = ''tx-'' @ sprint_d n"
    unfolding tx_inv_def by blast
  then have "txSeq s + 1 = n"
    by (simp add: sprint_d_inj)
  with \<open>n \<le> txSeq s\<close> show False by simp
qed

lemma store_inv_Begin:
  assumes "store_inv s"
  shows "store_inv (snd (BeginTransaction s))" and "tx_persist s (snd (BeginTransaction s))"
proof -
  let ?k = "''tx-'' @ sprint_d (txSeq s + 1)"
  let ?s' = "snd (BeginTransaction s)"
  from assms have ti: "tx_inv s" and vi: "ver_inv s"
    by (simp_all add: store_inv_def)
  have fresh: "map_of (Transactions s) ?k = None"
    using ti by (rule Begin_fresh)
  have "tx_inv ?s'"
    unfolding tx_inv_def
  proof (intro allI impI)
    fix j U
    assume j: "map_of (Transactions ?s') j = Some U"
    show "tx_ID U = j \<and> tx_StartTime U \<le> GlobalTimestamp ?s'
        \<and> (tx_Status U = TxCommitted \<longrightarrow>
              (\<exists>c. tx_CommitTime U = Some c \<and> c \<le> GlobalTimestamp ?s'))
        \<and> (\<exists>n. n \<le> txSeq ?s' \<and> j = ''tx-'' @ sprint_d n)"
    proof (cases "j = ?k")
      case True
      with j show ?thesis
        by (auto simp: BeginTransaction_def Let_def update_conv')
    next
      case False
      with j have old: "map_of (Transactions s) j = Some U"
        by (simp add: BeginTransaction_def Let_def update_conv')
      from ti old have "tx_ID U = j" "tx_StartTime U \<le> GlobalTimestamp s"
        "tx_Status U = TxCommitted \<longrightarrow> (\<exists>c. tx_CommitTime U = Some c \<and> c \<le> GlobalTimestamp s)"
        "\<exists>n. n \<le> txSeq s \<and> j = ''tx-'' @ sprint_d n"
        unfolding tx_inv_def by blast+
      then show ?thesis
        by (auto simp: BeginTransaction_def Let_def intro: le_SucI)
    qed
  qed
  moreover have "ver_inv ?s'"
    by (rule ver_inv_shrink [OF vi])
      (auto simp: BeginTransaction_def Let_def update_conv')
  ultimately show "store_inv ?s'"
    by (simp add: store_inv_def)
  show "tx_persist s ?s'"
    unfolding tx_persist_def
    using fresh by (auto simp: BeginTransaction_def Let_def update_conv')
qed

text \<open>Read\<close>

lemma read_chain_cases:
  "snd (read_chain s txID tx rowID chain) = s
   \<or> snd (read_chain s txID tx rowID chain)
       = s\<lparr>Transactions :=
             AList.update txID (tx\<lparr>tx_ReadSet := tx_ReadSet tx @ [rowID]\<rparr>) (Transactions s)\<rparr>"
  by (induction chain) (auto split: option.splits sum.splits bool.splits)

lemma store_inv_Read:
  assumes "store_inv s"
  shows "store_inv (snd (Read t r s))" and "tx_persist s (snd (Read t r s))"
proof -
  let ?s' = "snd (Read t r s)"
  from assms have ti: "tx_inv s" and vi: "ver_inv s"
    by (simp_all add: store_inv_def)
  have "store_inv ?s' \<and> tx_persist s ?s'"
  proof (cases "?s' = s")
    case True
    with assms show ?thesis by (simp add: tx_persist_refl)
  next
    case False
    then obtain tx where tx: "map_of (Transactions s) t = Some tx"
      by (cases "map_of (Transactions s) t") (auto simp: Read_def)
    with False obtain row where row: "map_of (Rows s) r = Some row"
      and act: "tx_Status tx = TxActive"
      by (cases "map_of (Rows s) r") (auto simp: Read_def split: if_splits)
    let ?tx' = "tx\<lparr>tx_ReadSet := tx_ReadSet tx @ [r]\<rparr>"
    from tx row act False
    have eq: "?s' = s\<lparr>Transactions := AList.update t ?tx' (Transactions s)\<rparr>"
      using read_chain_cases [of s t tx r "row_VersionChain row"]
      by (auto simp: Read_def)
    have "tx_inv ?s'"
      by (rule tx_inv_touch [OF ti tx, of _ ?tx']) (use act in \<open>simp_all add: eq\<close>)
    moreover have "ver_inv ?s'"
      by (rule ver_inv_shrink [OF vi]) (use tx in \<open>auto simp: eq update_conv'\<close>)
    moreover have "tx_persist s ?s'"
      by (rule tx_persist_touch [OF tx, of _ ?tx']) (use act in \<open>simp_all add: eq\<close>)
    ultimately show ?thesis by (simp add: store_inv_def)
  qed
  then show "store_inv ?s'" and "tx_persist s ?s'" by simp_all
qed

text \<open>Write\<close>

lemma store_inv_Write:
  assumes "store_inv s"
  shows "store_inv (snd (Write t r d s))" and "tx_persist s (snd (Write t r d s))"
proof -
  let ?s' = "snd (Write t r d s)"
  from assms have ti: "tx_inv s" and vi: "ver_inv s"
    by (simp_all add: store_inv_def)
  have "store_inv ?s' \<and> tx_persist s ?s'"
  proof (cases "\<exists>tx. map_of (Transactions s) t = Some tx \<and> tx_Status tx = TxActive")
    case False
    then have "?s' = s"
      by (auto simp: Write_def split: option.splits)
    with assms show ?thesis by (simp add: tx_persist_refl)
  next
    case True
    then obtain tx where tx: "map_of (Transactions s) t = Some tx"
      and act: "tx_Status tx = TxActive" by blast
    let ?tx' = "tx\<lparr>tx_WriteSet := tx_WriteSet tx @ [r]\<rparr>"
    have T: "Transactions ?s' = AList.update t ?tx' (Transactions s)"
      and G: "GlobalTimestamp ?s' = GlobalTimestamp s" and S: "txSeq ?s' = txSeq s"
      using tx act by (simp_all add: Write_def Let_def)
    have "tx_inv ?s'"
      by (rule tx_inv_touch [OF ti tx T]) (use act G S in simp_all)
    moreover have "tx_persist s ?s'"
      by (rule tx_persist_touch [OF tx T]) (use act G in simp_all)
    moreover have "ver_inv ?s'"
      unfolding ver_inv_def
    proof (intro allI impI)
      fix v V
      assume v: "map_of (Versions ?s') v = Some V"
      have dom: "dom (map_of (Transactions ?s')) = dom (map_of (Transactions s))"
        by (rule dom_touch [OF tx T])
      show "ver_CreatedBy V \<in> dom (map_of (Transactions ?s'))
          \<and> (\<forall>d. ver_DeletedBy V = Some d \<longrightarrow> d \<in> dom (map_of (Transactions ?s')))
          \<and> (ver_DeletedAt V = None) = (ver_DeletedBy V = None)"
      proof (cases "v = ''ver-'' @ sprint_d (verSeq s + 1)")
        case True
        with v tx act have "ver_CreatedBy V = t" "ver_DeletedBy V = None"
          "ver_DeletedAt V = None"
          by (auto simp: Write_def Let_def update_conv')
        with tx dom show ?thesis by auto
      next
        case False
        with v tx act have "map_of (Versions s) v = Some V"
          by (auto simp: Write_def Let_def update_conv')
        with vi dom show ?thesis
          unfolding ver_inv_def by blast
      qed
    qed
    ultimately show ?thesis by (simp add: store_inv_def)
  qed
  then show "store_inv ?s'" and "tx_persist s ?s'" by simp_all
qed

text \<open>Delete\<close>

lemma store_inv_Delete:
  assumes "store_inv s"
  shows "store_inv (snd (Delete t r s))" and "tx_persist s (snd (Delete t r s))"
proof -
  let ?s' = "snd (Delete t r s)"
  from assms have ti: "tx_inv s" and vi: "ver_inv s"
    by (simp_all add: store_inv_def)
  have "store_inv ?s' \<and> tx_persist s ?s'"
  proof (cases "?s' = s")
    case True
    with assms show ?thesis by (simp add: tx_persist_refl)
  next
    case False
    then obtain tx where tx: "map_of (Transactions s) t = Some tx"
      by (cases "map_of (Transactions s) t") (auto simp: Delete_def)
    with False obtain row where row: "map_of (Rows s) r = Some row"
      and act: "tx_Status tx = TxActive"
      by (cases "map_of (Rows s) r") (auto simp: Delete_def split: if_splits)
    let ?tx' = "tx\<lparr>tx_WriteSet := tx_WriteSet tx @ [r]\<rparr>"
    have T: "Transactions ?s' = AList.update t ?tx' (Transactions s)"
      and G: "GlobalTimestamp ?s' = GlobalTimestamp s" and S: "txSeq ?s' = txSeq s"
      using tx act row False by (auto simp: Delete_def Let_def split: option.splits)
    have dom: "dom (map_of (Transactions ?s')) = dom (map_of (Transactions s))"
      by (rule dom_touch [OF tx T])
    have "tx_inv ?s'"
      by (rule tx_inv_touch [OF ti tx T]) (use act G S in simp_all)
    moreover have "tx_persist s ?s'"
      by (rule tx_persist_touch [OF tx T]) (use act G in simp_all)
    moreover have "ver_inv ?s'"
      unfolding ver_inv_def
    proof (intro allI impI)
      fix v V
      assume v: "map_of (Versions ?s') v = Some V"
      have "map_of (Versions s) v = Some V
          \<or> (\<exists>V0. map_of (Versions s) v = Some V0
                \<and> V = V0\<lparr>ver_DeletedBy := Some t, ver_DeletedAt := Some (GlobalTimestamp s)\<rparr>)"
        using v tx act row
        by (auto simp: Delete_def Let_def update_conv' split: option.splits if_splits)
      then show "ver_CreatedBy V \<in> dom (map_of (Transactions ?s'))
          \<and> (\<forall>d. ver_DeletedBy V = Some d \<longrightarrow> d \<in> dom (map_of (Transactions ?s')))
          \<and> (ver_DeletedAt V = None) = (ver_DeletedBy V = None)"
      proof
        assume "map_of (Versions s) v = Some V"
        with vi dom show ?thesis unfolding ver_inv_def by blast
      next
        assume "\<exists>V0. map_of (Versions s) v = Some V0
            \<and> V = V0\<lparr>ver_DeletedBy := Some t, ver_DeletedAt := Some (GlobalTimestamp s)\<rparr>"
        then obtain V0 where V0: "map_of (Versions s) v = Some V0"
          and V: "V = V0\<lparr>ver_DeletedBy := Some t, ver_DeletedAt := Some (GlobalTimestamp s)\<rparr>"
          by blast
        from vi V0 have "ver_CreatedBy V0 \<in> dom (map_of (Transactions s))"
          unfolding ver_inv_def by blast
        with V dom tx show ?thesis by auto
      qed
    qed
    ultimately show ?thesis by (simp add: store_inv_def)
  qed
  then show "store_inv ?s'" and "tx_persist s ?s'" by simp_all
qed

text \<open>Commit\<close>

lemma store_inv_Commit:
  assumes "store_inv s"
  shows "store_inv (snd (Commit t s))" and "tx_persist s (snd (Commit t s))"
proof -
  let ?s' = "snd (Commit t s)"
  from assms have ti: "tx_inv s" and vi: "ver_inv s"
    by (simp_all add: store_inv_def)
  have "store_inv ?s' \<and> tx_persist s ?s'"
  proof (cases "\<exists>tx. map_of (Transactions s) t = Some tx \<and> tx_Status tx = TxActive")
    case False
    then have "?s' = s"
      by (auto simp: Commit_def split: option.splits)
    with assms show ?thesis by (simp add: tx_persist_refl)
  next
    case True
    then obtain tx where tx: "map_of (Transactions s) t = Some tx"
      and act: "tx_Status tx = TxActive" by blast
    let ?tx' = "tx\<lparr>tx_CommitTime := Some (GlobalTimestamp s + 1), tx_Status := TxCommitted\<rparr>"
    have T: "Transactions ?s' = AList.update t ?tx' (Transactions s)"
      and G: "GlobalTimestamp ?s' = GlobalTimestamp s + 1" and S: "txSeq ?s' = txSeq s"
      and V: "Versions ?s' = Versions s"
      using tx act by (simp_all add: Commit_def Let_def)
    have "tx_inv ?s'"
      by (rule tx_inv_touch [OF ti tx T]) (use act G S in simp_all)
    moreover have "tx_persist s ?s'"
      by (rule tx_persist_touch [OF tx T]) (use act G in simp_all)
    moreover have "ver_inv ?s'"
      by (rule ver_inv_shrink [OF vi]) (use dom_touch [OF tx T] V in simp_all)
    ultimately show ?thesis by (simp add: store_inv_def)
  qed
  then show "store_inv ?s'" and "tx_persist s ?s'" by simp_all
qed

text \<open>Abort\<close>

lemma abort_rows_frame:
  "Transactions (snd (abort_rows txID ws s)) = Transactions s
   \<and> GlobalTimestamp (snd (abort_rows txID ws s)) = GlobalTimestamp s
   \<and> txSeq (snd (abort_rows txID ws s)) = txSeq s
   \<and> (\<forall>v V. map_of (Versions (snd (abort_rows txID ws s))) v = Some V
          \<longrightarrow> map_of (Versions s) v = Some V)"
proof (induction ws arbitrary: s)
  case Nil
  then show ?case by simp
next
  case (Cons rowID rest)
  show ?case
  proof (cases "map_of (Rows s) rowID")
    case None
    then show ?thesis by simp
  next
    case (Some row)
    obtain p newChain vs where ac:
      "abort_chain txID (row_VersionChain row) [] (Versions s) = (p, newChain, vs)"
      by (cases "abort_chain txID (row_VersionChain row) [] (Versions s)")
    note sub = abort_chain_versions [OF ac]
    show ?thesis
    proof (cases p)
      case (Some q)
      with \<open>map_of (Rows s) rowID = Some row\<close> ac sub show ?thesis by simp
    next
      case None
      define s1 where "s1 = (if length newChain > 0 then
            s\<lparr>Versions := vs,
              Rows := AList.update rowID
                        (row\<lparr>row_VersionChain := newChain,
                              row_CurrentVersion := hd newChain\<rparr>) (Rows s)\<rparr>
          else s\<lparr>Versions := vs, Rows := AList.delete rowID (Rows s)\<rparr>)"
      have step: "abort_rows txID (rowID # rest) s = abort_rows txID rest s1"
        using \<open>map_of (Rows s) rowID = Some row\<close> ac None by (simp add: s1_def)
      have s1: "Transactions s1 = Transactions s" "GlobalTimestamp s1 = GlobalTimestamp s"
        "txSeq s1 = txSeq s" "Versions s1 = vs"
        by (simp_all add: s1_def)
      from Cons.IH [of s1] s1 sub show ?thesis
        unfolding step by simp
    qed
  qed
qed

lemma store_inv_Abort:
  assumes "store_inv s"
  shows "store_inv (snd (Abort t s))" and "tx_persist s (snd (Abort t s))"
proof -
  let ?s' = "snd (Abort t s)"
  from assms have ti: "tx_inv s" and vi: "ver_inv s"
    by (simp_all add: store_inv_def)
  have "store_inv ?s' \<and> tx_persist s ?s'"
  proof (cases "\<exists>tx. map_of (Transactions s) t = Some tx \<and> tx_Status tx = TxActive")
    case False
    then have "?s' = s"
      by (auto simp: Abort_def split: option.splits)
    with assms show ?thesis by (simp add: tx_persist_refl)
  next
    case True
    then obtain tx where tx: "map_of (Transactions s) t = Some tx"
      and act: "tx_Status tx = TxActive" by blast
    let ?tx' = "tx\<lparr>tx_Status := TxAborted\<rparr>"
    define s1 where "s1 = s\<lparr>Transactions := AList.update t ?tx' (Transactions s)\<rparr>"
    obtain p s2 where ar: "abort_rows t (tx_WriteSet tx) s1 = (p, s2)"
      by (cases "abort_rows t (tx_WriteSet tx) s1")
    from abort_rows_frame [of t "tx_WriteSet tx" s1] ar
    have fr: "Transactions s2 = Transactions s1" "GlobalTimestamp s2 = GlobalTimestamp s1"
      "txSeq s2 = txSeq s1"
      "\<And>v V. map_of (Versions s2) v = Some V \<Longrightarrow> map_of (Versions s1) v = Some V"
      by simp_all
    have T: "Transactions ?s' = AList.update t ?tx' (Transactions s)"
      and G: "GlobalTimestamp ?s' = GlobalTimestamp s" and S: "txSeq ?s' = txSeq s"
      and V: "Versions ?s' = Versions s2"
      using tx act ar fr(1-3)
      by (cases p; simp add: Abort_def Let_def s1_def [symmetric]; simp add: s1_def)+
    have "tx_inv ?s'"
      by (rule tx_inv_touch [OF ti tx T]) (use act G S in simp_all)
    moreover have "tx_persist s ?s'"
      by (rule tx_persist_touch [OF tx T]) (use act G in simp_all)
    moreover have "ver_inv ?s'"
    proof (rule ver_inv_shrink [OF vi])
      show "dom (map_of (Transactions s)) \<subseteq> dom (map_of (Transactions ?s'))"
        using dom_touch [OF tx T] by simp
      show "\<And>v V. map_of (Versions ?s') v = Some V \<Longrightarrow> map_of (Versions s) v = Some V"
        using fr(4) V by (simp add: s1_def)
    qed
    ultimately show ?thesis by (simp add: store_inv_def)
  qed
  then show "store_inv ?s'" and "tx_persist s ?s'" by simp_all
qed

text \<open>GarbageCollect\<close>

lemma gc_chain_versions:
  "gc_chain txs oldest chain found acc removed vs = (p, newChain, removed', vs')
   \<Longrightarrow> map_of vs' v = Some V \<Longrightarrow> map_of vs v = Some V"
proof (induction chain arbitrary: found acc removed vs)
  case Nil
  then show ?case by simp
next
  case (Cons verID rest)
  show ?case
  proof (cases "map_of vs verID")
    case None
    with Cons.prems show ?thesis by simp
  next
    case (Some ver)
    note ver = Some
    show ?thesis
    proof (cases "map_of txs (ver_CreatedBy ver)")
      case None
      with Cons.prems ver show ?thesis by simp
    next
      case (Some creatorTx)
      consider (drop) "gc_chain txs oldest rest found acc (removed @ [verID])
                          (AList.delete verID vs) = (p, newChain, removed', vs')"
        | (keep) f where "gc_chain txs oldest rest f (acc @ [verID]) removed vs
                          = (p, newChain, removed', vs')"
        using Cons.prems(1) ver Some by (auto split: if_splits)
      then show ?thesis
      proof cases
        case drop
        from Cons.IH [OF drop Cons.prems(2)] show ?thesis
          by (simp add: delete_conv' split: if_splits)
      next
        case keep
        from Cons.IH [OF keep Cons.prems(2)] show ?thesis .
      qed
    qed
  qed
qed

lemma gc_rows_frame:
  "Transactions (snd (gc_rows oldest rows removed s)) = Transactions s
   \<and> GlobalTimestamp (snd (gc_rows oldest rows removed s)) = GlobalTimestamp s
   \<and> txSeq (snd (gc_rows oldest rows removed s)) = txSeq s
   \<and> (\<forall>v V. map_of (Versions (snd (gc_rows oldest rows removed s))) v = Some V
          \<longrightarrow> map_of (Versions s) v = Some V)"
proof (induction rows arbitrary: removed s)
  case Nil
  then show ?case by simp
next
  case (Cons entry rest)
  obtain rowID row where entry: "entry = (rowID, row)"
    by (cases entry)
  obtain p newChain removed' vs where gc:
    "gc_chain (Transactions s) oldest (row_VersionChain row) False [] removed (Versions s)
       = (p, newChain, removed', vs)"
    by (cases "gc_chain (Transactions s) oldest (row_VersionChain row) False [] removed
                 (Versions s)") auto
  note sub = gc_chain_versions [OF gc]
  show ?case
  proof (cases p)
    case (Some q)
    with gc entry sub show ?thesis by simp
  next
    case None
    define s1 where "s1 = s\<lparr>Versions := vs,
        Rows := AList.update rowID (row\<lparr>row_VersionChain := newChain\<rparr>) (Rows s)\<rparr>"
    have step: "gc_rows oldest (entry # rest) removed s = gc_rows oldest rest removed' s1"
      using gc None entry by (simp add: s1_def)
    have s1: "Transactions s1 = Transactions s" "GlobalTimestamp s1 = GlobalTimestamp s"
      "txSeq s1 = txSeq s" "Versions s1 = vs"
      by (simp_all add: s1_def)
    from Cons.IH [of removed' s1] s1 sub show ?thesis
      unfolding step by simp
  qed
qed

lemma store_inv_GarbageCollect:
  assumes "store_inv s"
  shows "store_inv (snd (GarbageCollect s))" and "tx_persist s (snd (GarbageCollect s))"
proof -
  let ?s' = "snd (GarbageCollect s)"
  from assms have ti: "tx_inv s" and vi: "ver_inv s"
    by (simp_all add: store_inv_def)
  from gc_rows_frame [of "oldestActiveStart s" "Rows s" "[]" s]
  have fr: "Transactions ?s' = Transactions s" "GlobalTimestamp ?s' = GlobalTimestamp s"
    "txSeq ?s' = txSeq s"
    "\<And>v V. map_of (Versions ?s') v = Some V \<Longrightarrow> map_of (Versions s) v = Some V"
    by (simp_all add: GarbageCollect_def)
  have "tx_inv ?s'"
    using ti fr(1-3) by (rule tx_inv_same)
  moreover have "ver_inv ?s'"
    by (rule ver_inv_shrink [OF vi]) (use fr in simp_all)
  ultimately show "store_inv ?s'" by (simp add: store_inv_def)
  show "tx_persist s ?s'"
    using fr(1,2) by (rule tx_persist_same)
qed

lemma store_inv_exec:
  assumes "store_inv s"
  shows "store_inv (snd (exec op s)) \<and> tx_persist s (snd (exec op s))"
  using assms
  by (cases op)
    (simp_all add: store_inv_Begin store_inv_Read store_inv_Write store_inv_Delete
      store_inv_Commit store_inv_Abort store_inv_GarbageCollect)

lemma store_inv_New: "store_inv NewMVCCStore"
  by (simp add: store_inv_def tx_inv_def ver_inv_def NewMVCCStore_def)

lemma store_inv_run:
  "store_inv s \<Longrightarrow> run ops s = Some s' \<Longrightarrow> store_inv s' \<and> tx_persist s s'"
proof (induction ops arbitrary: s)
  case Nil
  then show ?case by (simp add: tx_persist_refl)
next
  case (Cons op ops)
  obtain b s1 where ex: "exec op s = (b, s1)"
    by (cases "exec op s")
  with Cons.prems(2) have r: "run ops s1 = Some s'"
    by (auto split: bool.splits)
  have s1: "store_inv s1" "tx_persist s s1"
    using store_inv_exec [OF Cons.prems(1), of op] ex by simp_all
  from Cons.IH [OF s1(1) r] s1(2) show ?case
    by (blast intro: tx_persist_trans)
qed

lemma reachable_store_inv: "reachable s \<Longrightarrow> store_inv s"
  unfolding reachable_def using store_inv_New store_inv_run by blast

subsection \<open>Snapshot visibility\<close>

text \<open>
  The spec's condition on deletion: the version is deleted by a transaction that is
  committed with a commit timestamp at most the reader's start.
\<close>

definition deleted_before :: "'d MVCCStore \<Rightarrow> Transaction \<Rightarrow> 'd Version \<Rightarrow> bool" where
  "deleted_before s tx ver =
     (case ver_DeletedBy ver of
        None \<Rightarrow> False
      | Some d \<Rightarrow>
          (case map_of (Transactions s) d of
             None \<Rightarrow> False
           | Some deleterTx \<Rightarrow>
               tx_Status deleterTx = TxCommitted
               \<and> (case tx_CommitTime deleterTx of
                    None \<Rightarrow> False
                  | Some c \<Rightarrow> c \<le> tx_StartTime tx)))"

lemma committed_before_begin_visible:
  assumes "reachable s1"
    and "map_of (Transactions s1) t1 = Some T1" and "tx_Status T1 = TxCommitted"
    and "BeginTransaction s1 = (T2, s2)"
    and "run ops s2 = Some s3"
    and "map_of (Transactions s3) (tx_ID T2) = Some T2'"
    and "map_of (Versions s3) v = Some V" and "ver_CreatedBy V = t1"
  shows "isVisible s3 T2' V = Inr (\<not> deleted_before s3 T2' V)"
proof -
  have inv1: "store_inv s1"
    using assms(1) by (rule reachable_store_inv)
  then have ti1: "tx_inv s1" by (simp add: store_inv_def)
  from ti1 assms(2,3) obtain c n where c: "tx_CommitTime T1 = Some c"
    "c \<le> GlobalTimestamp s1" and n: "n \<le> txSeq s1" "t1 = ''tx-'' @ sprint_d n"
    unfolding tx_inv_def by blast
  have s2: "s2 = snd (BeginTransaction s1)"
    and T2: "tx_ID T2 = ''tx-'' @ sprint_d (txSeq s1 + 1)" "tx_StartTime T2 = GlobalTimestamp s1"
    using assms(4) by (auto simp: BeginTransaction_def Let_def)
  have neq: "tx_ID T2 \<noteq> t1"
  proof
    assume "tx_ID T2 = t1"
    with T2(1) n(2) have "txSeq s1 + 1 = n" by (simp add: sprint_d_inj)
    with n(1) show False by simp
  qed
  have inv2: "store_inv s2" and p12: "tx_persist s1 s2"
    using store_inv_Begin [OF inv1] by (simp_all add: s2)
  have T2_in: "map_of (Transactions s2) (tx_ID T2) = Some T2"
    using assms(4) by (auto simp: BeginTransaction_def Let_def update_conv')
  from store_inv_run [OF inv2 assms(5)] have inv3: "store_inv s3" and p23: "tx_persist s2 s3"
    by simp_all
  from inv3 have ti3: "tx_inv s3" and vi3: "ver_inv s3"
    by (simp_all add: store_inv_def)
  from p23 T2_in assms(6) have start: "tx_StartTime T2' = GlobalTimestamp s1"
    unfolding tx_persist_def using T2(2) by fastforce
  from ti3 assms(6) have id: "tx_ID T2' = tx_ID T2"
    unfolding tx_inv_def by blast
  from tx_persist_trans [OF p12 p23] assms(2,3) c(1)
  obtain T1' where T1': "map_of (Transactions s3) t1 = Some T1'"
    "tx_Status T1' = TxCommitted" "tx_CommitTime T1' = Some c"
    unfolding tx_persist_def by fastforce
  from vi3 assms(7) have del: "\<forall>d. ver_DeletedBy V = Some d \<longrightarrow> d \<in> dom (map_of (Transactions s3))"
    "(ver_DeletedAt V = None) = (ver_DeletedBy V = None)"
    unfolding ver_inv_def by blast+
  show ?thesis
  proof (cases "ver_DeletedBy V")
    case None
    with del(2) have "ver_DeletedAt V = None" by simp
    with None T1' c(2) start id neq assms(8) show ?thesis
      by (simp add: isVisible_def deleted_before_def)
  next
    case (Some d)
    with del obtain a D where a: "ver_DeletedAt V = Some a"
      and D: "map_of (Transactions s3) d = Some D"
      by (cases "ver_DeletedAt V") auto
    show ?thesis
    proof (cases "tx_Status D = TxCommitted")
      case False
      with Some a D T1' c(2) start id neq assms(8) show ?thesis
        by (simp add: isVisible_def deleted_before_def)
    next
      case True
      with ti3 D obtain dc where "tx_CommitTime D = Some dc"
        unfolding tx_inv_def by blast
      with True Some a D T1' c(2) start id neq assms(8) show ?thesis
        by (simp add: isVisible_def deleted_before_def)
    qed
  qed
qed

lemma uncommitted_visible_to_creator_only:
  assumes "reachable s" and "map_of (Versions s) w = Some W"
    and "map_of (Transactions s) (ver_CreatedBy W) = Some C" and "tx_Status C \<noteq> TxCommitted"
    and "map_of (Transactions s) t = Some T"
  shows "isVisible s T W = Inr (t = ver_CreatedBy W)"
proof -
  from reachable_store_inv [OF assms(1)] have "tx_inv s"
    by (simp add: store_inv_def)
  with assms(5) have "tx_ID T = t"
    unfolding tx_inv_def by blast
  with assms(3,4) show ?thesis
    by (auto simp: isVisible_def)
qed

text \<open>
  C2. A transaction \<open>t1\<close> that is committed in a reachable store \<open>s1\<close>, a transaction
  \<open>t2\<close> begun in \<open>s1\<close>, and any operations after that: a version that \<open>t1\<close> created
  is visible to \<open>t2\<close> exactly when it is not deleted by a transaction committed at or
  before \<open>t2\<close>'s start. In every reachable store a version whose creator has not
  committed is visible to a transaction exactly when that transaction is its creator.
\<close>

theorem snapshot_visibility:
  "(reachable s1 \<and> map_of (Transactions s1) t1 = Some T1 \<and> tx_Status T1 = TxCommitted
      \<and> BeginTransaction s1 = (T2, s2) \<and> run ops s2 = Some s3
      \<and> map_of (Transactions s3) (tx_ID T2) = Some T2'
      \<and> map_of (Versions s3) v = Some V \<and> ver_CreatedBy V = t1
    \<longrightarrow> isVisible s3 T2' V = Inr (\<not> deleted_before s3 T2' V))
   \<and> (reachable s \<and> map_of (Versions s) w = Some W
      \<and> map_of (Transactions s) (ver_CreatedBy W) = Some C \<and> tx_Status C \<noteq> TxCommitted
      \<and> map_of (Transactions s) t = Some T
    \<longrightarrow> isVisible s T W = Inr (t = ver_CreatedBy W))"
  using committed_before_begin_visible [of s1 t1 T1 T2 s2 ops s3 T2' v V]
    uncommitted_visible_to_creator_only [of s w W C t T]
  by blast

text \<open>
  Scenario C of the spec: \<open>tx-1\<close> writes \<open>users:1\<close> and commits, \<open>tx-2\<close> begins and
  reads the row. And a store where \<open>tx-1\<close> has written but not committed when
  \<open>tx-2\<close> begins.
\<close>

definition scenario_C_s1 :: "(string \<times> string) list MVCCStore" where
  "scenario_C_s1 = snd (Commit ''tx-1'' store_one_write)"

definition scenario_C_s3 :: "(string \<times> string) list MVCCStore" where
  "scenario_C_s3 = snd (Read ''tx-2'' ''users:1'' (snd (BeginTransaction scenario_C_s1)))"

definition uncommitted_store :: "(string \<times> string) list MVCCStore" where
  "uncommitted_store = snd (BeginTransaction store_one_write)"

definition ver_1 :: "(string \<times> string) list Version" where
  "ver_1 = \<lparr>ver_ID = ''ver-1'', ver_RowID = ''users:1'', ver_Data = [(''name'', ''A'')],
            ver_CreatedBy = ''tx-1'', ver_CreatedAt = 1, ver_DeletedBy = None,
            ver_DeletedAt = None, ver_Prev = None\<rparr>"

definition tx_of :: "string \<Rightarrow> 'd MVCCStore \<Rightarrow> Transaction" where
  "tx_of t s = (case map_of (Transactions s) t of Some T \<Rightarrow> T
     | None \<Rightarrow> \<lparr>tx_ID = [], tx_StartTime = 0, tx_CommitTime = None, tx_Status = TxAborted,
                tx_ReadSet = [], tx_WriteSet = []\<rparr>)"

theorem snapshot_visibility_witness:
  "fst (Read ''tx-2'' ''users:1'' (snd (BeginTransaction scenario_C_s1))) = Return ver_1
   \<and> isVisible scenario_C_s3 (tx_of ''tx-2'' scenario_C_s3) ver_1 = Inr True
   \<and> isVisible uncommitted_store (tx_of ''tx-2'' uncommitted_store) ver_1 = Inr False
   \<and> isVisible uncommitted_store (tx_of ''tx-1'' uncommitted_store) ver_1 = Inr True"
proof -
  have r1: "reachable scenario_C_s1"
    unfolding reachable_def
    by (rule exI [of _ "[OpBegin, OpWrite ''tx-1'' ''users:1'' [(''name'', ''A'')],
          OpCommit ''tx-1'']"])
      (simp add: scenario_C_s1_def store_one_write_def mvcc_eval)
  have ru: "reachable uncommitted_store"
    unfolding reachable_def
    by (rule exI [of _ "[OpBegin, OpWrite ''tx-1'' ''users:1'' [(''name'', ''A'')], OpBegin]"])
      (simp add: uncommitted_store_def store_one_write_def mvcc_eval)
  have rd: "fst (Read ''tx-2'' ''users:1'' (snd (BeginTransaction scenario_C_s1))) = Return ver_1"
    by (simp add: scenario_C_s1_def store_one_write_def ver_1_def mvcc_eval)
  have run3: "run [OpRead ''tx-2'' ''users:1''] (snd (BeginTransaction scenario_C_s1))
      = Some scenario_C_s3"
    using rd by (simp add: scenario_C_s3_def panicked_def)
  have T1: "map_of (Transactions scenario_C_s1) ''tx-1'' = Some (tx_of ''tx-1'' scenario_C_s1)"
    "tx_Status (tx_of ''tx-1'' scenario_C_s1) = TxCommitted"
    by (simp_all add: tx_of_def scenario_C_s1_def store_one_write_def mvcc_eval)
  have b: "BeginTransaction scenario_C_s1
      = (fst (BeginTransaction scenario_C_s1), snd (BeginTransaction scenario_C_s1))"
    by simp
  have id2: "tx_ID (fst (BeginTransaction scenario_C_s1)) = ''tx-2''"
    by (simp add: scenario_C_s1_def store_one_write_def mvcc_eval)
  have T2': "map_of (Transactions scenario_C_s3) ''tx-2'' = Some (tx_of ''tx-2'' scenario_C_s3)"
    by (simp add: tx_of_def scenario_C_s3_def scenario_C_s1_def store_one_write_def mvcc_eval)
  have V: "map_of (Versions scenario_C_s3) ''ver-1'' = Some ver_1" "ver_CreatedBy ver_1 = ''tx-1''"
    by (simp_all add: ver_1_def scenario_C_s3_def scenario_C_s1_def store_one_write_def mvcc_eval)
  have nd: "\<not> deleted_before scenario_C_s3 (tx_of ''tx-2'' scenario_C_s3) ver_1"
    by (simp add: deleted_before_def ver_1_def)
  have W: "map_of (Versions uncommitted_store) ''ver-1'' = Some ver_1"
    by (simp add: ver_1_def uncommitted_store_def store_one_write_def mvcc_eval)
  have C: "map_of (Transactions uncommitted_store) ''tx-1'' = Some (tx_of ''tx-1'' uncommitted_store)"
    "tx_Status (tx_of ''tx-1'' uncommitted_store) \<noteq> TxCommitted"
    "map_of (Transactions uncommitted_store) ''tx-2'' = Some (tx_of ''tx-2'' uncommitted_store)"
    by (simp_all add: tx_of_def uncommitted_store_def store_one_write_def mvcc_eval)
  from snapshot_visibility [of scenario_C_s1 "''tx-1''" "tx_of ''tx-1'' scenario_C_s1"
      "fst (BeginTransaction scenario_C_s1)" "snd (BeginTransaction scenario_C_s1)"
      "[OpRead ''tx-2'' ''users:1'']" scenario_C_s3 "tx_of ''tx-2'' scenario_C_s3"
      "''ver-1''" ver_1 uncommitted_store "''ver-1''" ver_1 "tx_of ''tx-1'' uncommitted_store"
      "''tx-2''" "tx_of ''tx-2'' uncommitted_store"]
    r1 T1 b id2 run3 T2' V nd ru W C
  have a: "isVisible scenario_C_s3 (tx_of ''tx-2'' scenario_C_s3) ver_1 = Inr True"
    and bb: "isVisible uncommitted_store (tx_of ''tx-2'' uncommitted_store) ver_1 = Inr False"
    by simp_all
  have cc: "isVisible uncommitted_store (tx_of ''tx-1'' uncommitted_store) ver_1 = Inr True"
    by (simp add: tx_of_def ver_1_def uncommitted_store_def store_one_write_def mvcc_eval)
  from rd a bb cc show ?thesis by simp
qed

subsection \<open>Garbage collection\<close>

text \<open>
  C3. \<open>tx-1\<close> writes \<open>users:1\<close> and commits at 2; \<open>tx-2\<close> commits at 3; \<open>tx-3\<close>
  begins at 3 and stays active; \<open>tx-4\<close> begins, writes \<open>users:1\<close> and commits at 4.
  The snapshot of \<open>tx-3\<close> sees \<open>ver-1\<close>. \<open>GarbageCollect\<close> takes 3 as threshold, marks
  \<open>foundVisible\<close> at \<open>ver-2\<close> (committed, though after the snapshot of \<open>tx-3\<close>) and
  removes \<open>ver-1\<close>: afterwards \<open>tx-3\<close> finds no visible version of the row.
\<close>

definition gc_ops :: "(string \<times> string) list mvcc_op list" where
  "gc_ops =
     [OpBegin, OpWrite ''tx-1'' ''users:1'' [(''name'', ''A'')], OpCommit ''tx-1'',
      OpBegin, OpCommit ''tx-2'', OpBegin, OpBegin,
      OpWrite ''tx-4'' ''users:1'' [(''name'', ''B'')], OpCommit ''tx-4'']"

definition gc_store :: "(string \<times> string) list MVCCStore" where
  "gc_store = fold (\<lambda>op s. snd (exec op s)) gc_ops NewMVCCStore"

theorem GarbageCollect_removes_needed_version:
  "run gc_ops NewMVCCStore = Some gc_store
   \<and> map_option tx_Status (map_of (Transactions gc_store) ''tx-3'') = Some TxActive
   \<and> map_option tx_StartTime (map_of (Transactions gc_store) ''tx-3'') = Some 3
   \<and> map_option row_VersionChain (map_of (Rows gc_store) ''users:1'')
       = Some [''ver-2'', ''ver-1'']
   \<and> fst (Read ''tx-3'' ''users:1'' gc_store) = Return ver_1
   \<and> oldestActiveStart gc_store = 3
   \<and> fst (GarbageCollect gc_store) = Return [''ver-1'']
   \<and> map_option row_VersionChain (map_of (Rows (snd (GarbageCollect gc_store))) ''users:1'')
       = Some [''ver-2'']
   \<and> fst (Read ''tx-3'' ''users:1'' (snd (GarbageCollect gc_store)))
       = Failure (NoVisibleVersion ''users:1'')"
  by (simp add: gc_store_def gc_ops_def ver_1_def mvcc_eval)

section \<open>B-Tree (projects/btree/internal)\<close>

text \<open>
  The tree is the map \<open>Nodes\<close> from node ids to nodes, the id of the root (empty when
  there is no root) and the counter for fresh ids. A \<open>*BTreeNode\<close> is the id under
  which the node was found: ids are never reused, so writing through the pointer is
  updating that entry. Slices are lists; no two nodes ever share a backing array. An
  index outside a slice and a field read through a missing node are panics. The
  recursive descents are partial functions: on a store whose child ids form a cycle the
  Go code does not return either. Keys are only compared and copied: \<open>int\<close>.
\<close>

record BTreeNode =
  node_ID :: string
  Keys :: "int list"
  Children :: "string list"
  IsLeaf :: bool
  Parent :: string

record BTree =
  Order :: int
  RootID :: string
  Nodes :: "(string \<times> BTreeNode) list"
  nodeSeq :: nat

definition NewBTree :: "int \<Rightarrow> BTree" where
  "NewBTree order =
     \<lparr>Order = (if order < 3 then 3 else order), RootID = [], Nodes = [], nodeSeq = 0\<rparr>"

definition createNode :: "bool \<Rightarrow> BTree \<Rightarrow> BTreeNode \<times> BTree" where
  "createNode isLeaf bt =
     (let seq = nodeSeq bt + 1;
          node = \<lparr>node_ID = ''node-'' @ sprint_d seq, Keys = [], Children = [],
                  IsLeaf = isLeaf, Parent = []\<rparr>
      in (node, bt\<lparr>nodeSeq := seq, Nodes := AList.update (node_ID node) node (Nodes bt)\<rparr>))"

text \<open>\<open>bt.Nodes[id]\<close> followed by a field access, and \<open>xs[i]\<close>.\<close>

definition getNode :: "BTree \<Rightarrow> string \<Rightarrow> go_panic + BTreeNode" where
  "getNode bt nodeID =
     (case map_of (Nodes bt) nodeID of
        None \<Rightarrow> Inl NilPointerDereference
      | Some node \<Rightarrow> Inr node)"

definition setNode :: "string \<Rightarrow> BTreeNode \<Rightarrow> BTree \<Rightarrow> BTree" where
  "setNode nodeID node bt = bt\<lparr>Nodes := AList.update nodeID node (Nodes bt)\<rparr>"

definition elem_at :: "'a list \<Rightarrow> int \<Rightarrow> go_panic + 'a" where
  "elem_at xs i =
     (if 0 \<le> i \<and> i < int (length xs) then Inr (xs ! nat i) else Inl IndexOutOfRange)"

text \<open>Go's integer division by two truncates towards zero.\<close>

definition half :: "int \<Rightarrow> int" where
  "half a = (if a \<ge> 0 then a div 2 else - ((- a) div 2))"

text \<open>The helpers \<open>insertAt\<close>, \<open>insertAtStr\<close>, \<open>removeAt\<close>, \<open>removeAtStr\<close>.\<close>

definition insertAt :: "'a list \<Rightarrow> int \<Rightarrow> 'a \<Rightarrow> go_panic + 'a list" where
  "insertAt slice index v =
     (if 0 \<le> index \<and> index \<le> int (length slice)
      then Inr (take (nat index) slice @ [v] @ drop (nat index) slice)
      else Inl IndexOutOfRange)"

definition removeAt :: "'a list \<Rightarrow> int \<Rightarrow> go_panic + 'a list" where
  "removeAt slice index =
     (if 0 \<le> index \<and> index < int (length slice)
      then Inr (take (nat index) slice @ drop (nat index + 1) slice)
      else Inl IndexOutOfRange)"

text \<open>
  The loop \<open>for i >= 0 && key < Keys[i] { i-- }\<close> from \<open>i = len - 1\<close>, counted by
  \<open>j = i + 1\<close>: the result is the final \<open>i + 1\<close>.
\<close>

fun scan_down :: "int \<Rightarrow> int list \<Rightarrow> nat \<Rightarrow> nat" where
  "scan_down key ks 0 = 0"
| "scan_down key ks (Suc i) = (if key < ks ! i then scan_down key ks i else Suc i)"

text \<open>The loop \<open>for i < len && key > Keys[i] { i++ }\<close> from \<open>i = 0\<close>.\<close>

fun scan_up :: "int \<Rightarrow> int list \<Rightarrow> nat" where
  "scan_up key [] = 0"
| "scan_up key (k # ks) = (if key > k then Suc (scan_up key ks) else 0)"

text \<open>Setting the parent of each listed child.\<close>

fun setParents :: "string list \<Rightarrow> string \<Rightarrow> BTree \<Rightarrow> go_panic + BTree" where
  "setParents [] parentID bt = Inr bt"
| "setParents (childID # rest) parentID bt =
     (case getNode bt childID of
        Inl p \<Rightarrow> Inl p
      | Inr child \<Rightarrow> setParents rest parentID (setNode childID (child\<lparr>Parent := parentID\<rparr>) bt))"

definition splitChild :: "string \<Rightarrow> int \<Rightarrow> BTree \<Rightarrow> go_panic + BTree" where
  "splitChild parentID childIndex bt =
     (case getNode bt parentID of
        Inl p \<Rightarrow> Inl p
      | Inr parent \<Rightarrow>
     (case elem_at (Children parent) childIndex of
        Inl p \<Rightarrow> Inl p
      | Inr fullID \<Rightarrow>
     (case getNode bt fullID of
        Inl p \<Rightarrow> Inl p
      | Inr fullChild \<Rightarrow>
     (case createNode (IsLeaf fullChild) bt of
        (newNode, bt1) \<Rightarrow>
     (let newID = node_ID newNode;
          mid = half (Order bt - 1)
      in
     (case elem_at (Keys fullChild) mid of
        Inl p \<Rightarrow> Inl p
      | Inr medianKey \<Rightarrow>
     (let newNode1 = newNode\<lparr>Parent := parentID, Keys := drop (nat mid + 1) (Keys fullChild)\<rparr>;
          fullChild1 = fullChild\<lparr>Keys := take (nat mid) (Keys fullChild)\<rparr>
      in
     (case (if \<not> IsLeaf fullChild then
              (if nat mid + 1 > length (Children fullChild) then Inl IndexOutOfRange
               else
                 let moved = drop (nat mid + 1) (Children fullChild);
                     bt2 = setNode fullID
                             (fullChild1\<lparr>Children := take (nat mid + 1) (Children fullChild)\<rparr>)
                             (setNode newID (newNode1\<lparr>Children := moved\<rparr>) bt1)
                 in setParents moved newID bt2)
            else Inr (setNode fullID fullChild1 (setNode newID newNode1 bt1))) of
        Inl p \<Rightarrow> Inl p
      | Inr bt3 \<Rightarrow>
     (case getNode bt3 parentID of
        Inl p \<Rightarrow> Inl p
      | Inr parent1 \<Rightarrow>
     (case insertAt (Keys parent1) childIndex medianKey of
        Inl p \<Rightarrow> Inl p
      | Inr keys' \<Rightarrow>
     (case insertAt (Children parent1) (childIndex + 1) newID of
        Inl p \<Rightarrow> Inl p
      | Inr children' \<Rightarrow>
          Inr (setNode parentID (parent1\<lparr>Keys := keys', Children := children'\<rparr>) bt3)
     )))))))))))"

partial_function (option) insertNonFull ::
  "string \<Rightarrow> int \<Rightarrow> BTree \<Rightarrow> (go_panic + BTree) option" where
  "insertNonFull nodeID key bt =
     (case getNode bt nodeID of
        Inl p \<Rightarrow> Some (Inl p)
      | Inr node \<Rightarrow>
          if IsLeaf node then
            (let j = scan_down key (Keys node) (length (Keys node))
             in Some (Inr (setNode nodeID
                             (node\<lparr>Keys := take j (Keys node) @ [key] @ drop j (Keys node)\<rparr>)
                             bt)))
          else
            (let i = int (scan_down key (Keys node) (length (Keys node))) in
             case elem_at (Children node) i of
               Inl p \<Rightarrow> Some (Inl p)
             | Inr childID \<Rightarrow>
            (case getNode bt childID of
               Inl p \<Rightarrow> Some (Inl p)
             | Inr child \<Rightarrow>
                 if int (length (Keys child)) = Order bt - 1 then
                   (case splitChild nodeID i bt of
                      Inl p \<Rightarrow> Some (Inl p)
                    | Inr bt1 \<Rightarrow>
                   (case getNode bt1 nodeID of
                      Inl p \<Rightarrow> Some (Inl p)
                    | Inr node1 \<Rightarrow>
                   (case elem_at (Keys node1) i of
                      Inl p \<Rightarrow> Some (Inl p)
                    | Inr k \<Rightarrow>
                   (case elem_at (Children node1) (if key > k then i + 1 else i) of
                      Inl p \<Rightarrow> Some (Inl p)
                    | Inr nextID \<Rightarrow> insertNonFull nextID key bt1))))
                 else insertNonFull childID key bt)))"

declare insertNonFull.simps [code]

definition BTree_Insert :: "int \<Rightarrow> BTree \<Rightarrow> (go_panic + BTree) option" where
  "BTree_Insert key bt =
     (if RootID bt = [] then
        (case createNode True bt of
           (rootNode, bt1) \<Rightarrow>
             Some (Inr ((setNode (node_ID rootNode) (rootNode\<lparr>Keys := Keys rootNode @ [key]\<rparr>) bt1)
                          \<lparr>RootID := node_ID rootNode\<rparr>)))
      else
        (case getNode bt (RootID bt) of
           Inl p \<Rightarrow> Some (Inl p)
         | Inr rootNode \<Rightarrow>
             if int (length (Keys rootNode)) = Order bt - 1 then
               (case createNode False bt of
                  (newRoot, bt1) \<Rightarrow>
                    (let newID = node_ID newRoot;
                         bt2 = setNode newID (newRoot\<lparr>Children := [RootID bt]\<rparr>) bt1
                     in
                     case getNode bt2 (RootID bt) of
                       Inl p \<Rightarrow> Some (Inl p)
                     | Inr rootNode1 \<Rightarrow>
                         (let bt3 = (setNode (RootID bt) (rootNode1\<lparr>Parent := newID\<rparr>) bt2)
                                      \<lparr>RootID := newID\<rparr>
                          in
                          case splitChild newID 0 bt3 of
                            Inl p \<Rightarrow> Some (Inl p)
                          | Inr bt4 \<Rightarrow> insertNonFull newID key bt4)))
             else insertNonFull (RootID bt) key bt))"

partial_function (option) getPredecessor :: "string \<Rightarrow> BTree \<Rightarrow> (go_panic + int) option"
  where
  "getPredecessor nodeID bt =
     (case getNode bt nodeID of
        Inl p \<Rightarrow> Some (Inl p)
      | Inr node \<Rightarrow>
          if IsLeaf node then Some (elem_at (Keys node) (int (length (Keys node)) - 1))
          else
            (case elem_at (Children node) (int (length (Children node)) - 1) of
               Inl p \<Rightarrow> Some (Inl p)
             | Inr childID \<Rightarrow> getPredecessor childID bt))"

partial_function (option) getSuccessor :: "string \<Rightarrow> BTree \<Rightarrow> (go_panic + int) option"
  where
  "getSuccessor nodeID bt =
     (case getNode bt nodeID of
        Inl p \<Rightarrow> Some (Inl p)
      | Inr node \<Rightarrow>
          if IsLeaf node then Some (elem_at (Keys node) 0)
          else
            (case elem_at (Children node) 0 of
               Inl p \<Rightarrow> Some (Inl p)
             | Inr childID \<Rightarrow> getSuccessor childID bt))"

declare getPredecessor.simps [code] getSuccessor.simps [code]

definition borrowFromLeft :: "string \<Rightarrow> int \<Rightarrow> BTree \<Rightarrow> go_panic + BTree" where
  "borrowFromLeft parentID childIndex bt =
     (case getNode bt parentID of
        Inl p \<Rightarrow> Inl p
      | Inr parent \<Rightarrow>
     (case elem_at (Children parent) childIndex of
        Inl p \<Rightarrow> Inl p
      | Inr childID \<Rightarrow>
     (case elem_at (Children parent) (childIndex - 1) of
        Inl p \<Rightarrow> Inl p
      | Inr leftID \<Rightarrow>
     (case getNode bt childID of
        Inl p \<Rightarrow> Inl p
      | Inr child \<Rightarrow>
     (case elem_at (Keys parent) (childIndex - 1) of
        Inl p \<Rightarrow> Inl p
      | Inr down \<Rightarrow>
     (let bt1 = setNode childID (child\<lparr>Keys := down # Keys child\<rparr>) bt in
      case getNode bt1 leftID of
        Inl p \<Rightarrow> Inl p
      | Inr leftSibling \<Rightarrow>
     (case elem_at (Keys leftSibling) (int (length (Keys leftSibling)) - 1) of
        Inl p \<Rightarrow> Inl p
      | Inr up \<Rightarrow>
     (case getNode bt1 parentID of
        Inl p \<Rightarrow> Inl p
      | Inr parent1 \<Rightarrow>
     (let bt2 = setNode parentID
                  (parent1\<lparr>Keys := (Keys parent1)[nat (childIndex - 1) := up]\<rparr>) bt1
      in
      case getNode bt2 leftID of
        Inl p \<Rightarrow> Inl p
      | Inr left1 \<Rightarrow>
     (let left2 = left1\<lparr>Keys := butlast (Keys left1)\<rparr>;
          bt3 = setNode leftID left2 bt2
      in
      if \<not> IsLeaf left2 then
        (case elem_at (Children left2) (int (length (Children left2)) - 1) of
           Inl p \<Rightarrow> Inl p
         | Inr movedChildID \<Rightarrow>
        (let bt4 = setNode leftID (left2\<lparr>Children := butlast (Children left2)\<rparr>) bt3 in
         case getNode bt4 childID of
           Inl p \<Rightarrow> Inl p
         | Inr child1 \<Rightarrow>
        (let bt5 = setNode childID (child1\<lparr>Children := movedChildID # Children child1\<rparr>) bt4
         in
         case getNode bt5 movedChildID of
           Inl p \<Rightarrow> Inl p
         | Inr moved \<Rightarrow>
             Inr (setNode movedChildID (moved\<lparr>Parent := node_ID child1\<rparr>) bt5))))
      else Inr bt3))))))))))"

definition borrowFromRight :: "string \<Rightarrow> int \<Rightarrow> BTree \<Rightarrow> go_panic + BTree" where
  "borrowFromRight parentID childIndex bt =
     (case getNode bt parentID of
        Inl p \<Rightarrow> Inl p
      | Inr parent \<Rightarrow>
     (case elem_at (Children parent) childIndex of
        Inl p \<Rightarrow> Inl p
      | Inr childID \<Rightarrow>
     (case elem_at (Children parent) (childIndex + 1) of
        Inl p \<Rightarrow> Inl p
      | Inr rightID \<Rightarrow>
     (case getNode bt childID of
        Inl p \<Rightarrow> Inl p
      | Inr child \<Rightarrow>
     (case elem_at (Keys parent) childIndex of
        Inl p \<Rightarrow> Inl p
      | Inr down \<Rightarrow>
     (let bt1 = setNode childID (child\<lparr>Keys := Keys child @ [down]\<rparr>) bt in
      case getNode bt1 rightID of
        Inl p \<Rightarrow> Inl p
      | Inr rightSibling \<Rightarrow>
     (case elem_at (Keys rightSibling) 0 of
        Inl p \<Rightarrow> Inl p
      | Inr up \<Rightarrow>
     (case getNode bt1 parentID of
        Inl p \<Rightarrow> Inl p
      | Inr parent1 \<Rightarrow>
     (let bt2 = setNode parentID
                  (parent1\<lparr>Keys := (Keys parent1)[nat childIndex := up]\<rparr>) bt1
      in
      case getNode bt2 rightID of
        Inl p \<Rightarrow> Inl p
      | Inr right1 \<Rightarrow>
     (let right2 = right1\<lparr>Keys := tl (Keys right1)\<rparr>;
          bt3 = setNode rightID right2 bt2
      in
      if \<not> IsLeaf right2 then
        (case elem_at (Children right2) 0 of
           Inl p \<Rightarrow> Inl p
         | Inr movedChildID \<Rightarrow>
        (let bt4 = setNode rightID (right2\<lparr>Children := tl (Children right2)\<rparr>) bt3 in
         case getNode bt4 childID of
           Inl p \<Rightarrow> Inl p
         | Inr child1 \<Rightarrow>
        (let bt5 = setNode childID (child1\<lparr>Children := Children child1 @ [movedChildID]\<rparr>) bt4
         in
         case getNode bt5 movedChildID of
           Inl p \<Rightarrow> Inl p
         | Inr moved \<Rightarrow>
             Inr (setNode movedChildID (moved\<lparr>Parent := node_ID child1\<rparr>) bt5))))
      else Inr bt3))))))))))"

definition mergeChildren :: "string \<Rightarrow> int \<Rightarrow> BTree \<Rightarrow> go_panic + BTree" where
  "mergeChildren parentID leftIndex bt =
     (case getNode bt parentID of
        Inl p \<Rightarrow> Inl p
      | Inr parent \<Rightarrow>
     (case elem_at (Children parent) leftIndex of
        Inl p \<Rightarrow> Inl p
      | Inr leftID \<Rightarrow>
     (case elem_at (Children parent) (leftIndex + 1) of
        Inl p \<Rightarrow> Inl p
      | Inr rightID \<Rightarrow>
     (case getNode bt leftID of
        Inl p \<Rightarrow> Inl p
      | Inr leftChild \<Rightarrow>
     (case elem_at (Keys parent) leftIndex of
        Inl p \<Rightarrow> Inl p
      | Inr down \<Rightarrow>
     (case getNode bt rightID of
        Inl p \<Rightarrow> Inl p
      | Inr rightChild \<Rightarrow>
     (let left1 = leftChild\<lparr>Keys := Keys leftChild @ [down] @ Keys rightChild\<rparr>;
          bt1 = setNode leftID left1 bt
      in
     (case (if \<not> IsLeaf left1 then
              (case setParents (Children rightChild) (node_ID left1) bt1 of
                 Inl p \<Rightarrow> Inl p
               | Inr bt2 \<Rightarrow>
                   (case getNode bt2 leftID of
                      Inl p \<Rightarrow> Inl p
                    | Inr left2 \<Rightarrow>
                        Inr (setNode leftID
                               (left2\<lparr>Children := Children left2 @ Children rightChild\<rparr>) bt2)))
            else Inr bt1) of
        Inl p \<Rightarrow> Inl p
      | Inr bt3 \<Rightarrow>
     (case getNode bt3 parentID of
        Inl p \<Rightarrow> Inl p
      | Inr parent1 \<Rightarrow>
     (case removeAt (Keys parent1) leftIndex of
        Inl p \<Rightarrow> Inl p
      | Inr keys' \<Rightarrow>
     (case removeAt (Children parent1) (leftIndex + 1) of
        Inl p \<Rightarrow> Inl p
      | Inr children' \<Rightarrow>
          (let bt4 = setNode parentID (parent1\<lparr>Keys := keys', Children := children'\<rparr>) bt3
           in Inr (bt4\<lparr>Nodes := AList.delete (node_ID rightChild) (Nodes bt4)\<rparr>))
     )))))))))))"

definition fillChild :: "string \<Rightarrow> int \<Rightarrow> BTree \<Rightarrow> go_panic + BTree" where
  "fillChild parentID childIndex bt =
     (case getNode bt parentID of
        Inl p \<Rightarrow> Inl p
      | Inr parent \<Rightarrow>
          (let minKeys = half (Order bt - 1);
               tryLeft =
                 (if childIndex > 0 then
                    (case elem_at (Children parent) (childIndex - 1) of
                       Inl p \<Rightarrow> Inl p
                     | Inr leftID \<Rightarrow>
                         (case getNode bt leftID of
                            Inl p \<Rightarrow> Inl p
                          | Inr leftSibling \<Rightarrow>
                              Inr (int (length (Keys leftSibling)) > minKeys)))
                  else Inr False)
           in
           case tryLeft of
             Inl p \<Rightarrow> Inl p
           | Inr True \<Rightarrow> borrowFromLeft parentID childIndex bt
           | Inr False \<Rightarrow>
               (let tryRight =
                      (if childIndex < int (length (Children parent)) - 1 then
                         (case elem_at (Children parent) (childIndex + 1) of
                            Inl p \<Rightarrow> Inl p
                          | Inr rightID \<Rightarrow>
                              (case getNode bt rightID of
                                 Inl p \<Rightarrow> Inl p
                               | Inr rightSibling \<Rightarrow>
                                   Inr (int (length (Keys rightSibling)) > minKeys)))
                       else Inr False)
                in
                case tryRight of
                  Inl p \<Rightarrow> Inl p
                | Inr True \<Rightarrow> borrowFromRight parentID childIndex bt
                | Inr False \<Rightarrow>
                    if childIndex > 0 then mergeChildren parentID (childIndex - 1) bt
                    else mergeChildren parentID childIndex bt)))"

partial_function (option) deleteFromNode ::
  "string \<Rightarrow> int \<Rightarrow> BTree \<Rightarrow> (go_panic + bool \<times> BTree) option" where
  "deleteFromNode nodeID key bt =
     (case getNode bt nodeID of
        Inl p \<Rightarrow> Some (Inl p)
      | Inr node \<Rightarrow>
     (let minKeys = half (Order bt - 1);
          i = int (scan_up key (Keys node))
      in
      if IsLeaf node then
        (if i < int (length (Keys node)) \<and> Keys node ! nat i = key then
           (case removeAt (Keys node) i of
              Inl p \<Rightarrow> Some (Inl p)
            | Inr keys' \<Rightarrow> Some (Inr (True, setNode nodeID (node\<lparr>Keys := keys'\<rparr>) bt)))
         else Some (Inr (False, bt)))
      else if i < int (length (Keys node)) \<and> Keys node ! nat i = key then
        (case elem_at (Children node) i of
           Inl p \<Rightarrow> Some (Inl p)
         | Inr leftID \<Rightarrow>
        (case elem_at (Children node) (i + 1) of
           Inl p \<Rightarrow> Some (Inl p)
         | Inr rightID \<Rightarrow>
        (case getNode bt leftID of
           Inl p \<Rightarrow> Some (Inl p)
         | Inr leftChild \<Rightarrow>
            if int (length (Keys leftChild)) > minKeys then
              (case getPredecessor leftID bt of
                 None \<Rightarrow> None
               | Some (Inl p) \<Rightarrow> Some (Inl p)
               | Some (Inr predKey) \<Rightarrow>
                   deleteFromNode leftID predKey
                     (setNode nodeID (node\<lparr>Keys := (Keys node)[nat i := predKey]\<rparr>) bt))
            else
              (case getNode bt rightID of
                 Inl p \<Rightarrow> Some (Inl p)
               | Inr rightChild \<Rightarrow>
                   if int (length (Keys rightChild)) > minKeys then
                     (case getSuccessor rightID bt of
                        None \<Rightarrow> None
                      | Some (Inl p) \<Rightarrow> Some (Inl p)
                      | Some (Inr succKey) \<Rightarrow>
                          deleteFromNode rightID succKey
                            (setNode nodeID (node\<lparr>Keys := (Keys node)[nat i := succKey]\<rparr>) bt))
                   else
                     (case mergeChildren nodeID i bt of
                        Inl p \<Rightarrow> Some (Inl p)
                      | Inr bt1 \<Rightarrow>
                     (case getNode bt1 nodeID of
                        Inl p \<Rightarrow> Some (Inl p)
                      | Inr node1 \<Rightarrow>
                     (case elem_at (Children node1) i of
                        Inl p \<Rightarrow> Some (Inl p)
                      | Inr nextID \<Rightarrow> deleteFromNode nextID key bt1)))))))
      else
        (case elem_at (Children node) i of
           Inl p \<Rightarrow> Some (Inl p)
         | Inr childID \<Rightarrow>
        (case getNode bt childID of
           Inl p \<Rightarrow> Some (Inl p)
         | Inr child \<Rightarrow>
        (case (if int (length (Keys child)) = minKeys then fillChild nodeID i bt else Inr bt) of
           Inl p \<Rightarrow> Some (Inl p)
         | Inr bt1 \<Rightarrow>
        (case getNode bt1 nodeID of
           Inl p \<Rightarrow> Some (Inl p)
         | Inr node1 \<Rightarrow>
        (case elem_at (Children node1) (if i > int (length (Keys node1)) then i - 1 else i) of
           Inl p \<Rightarrow> Some (Inl p)
         | Inr nextID \<Rightarrow> deleteFromNode nextID key bt1)))))))"

declare deleteFromNode.simps [code]

definition BTree_Delete :: "int \<Rightarrow> BTree \<Rightarrow> (go_panic + bool \<times> BTree) option" where
  "BTree_Delete key bt =
     (if RootID bt = [] then Some (Inr (False, bt))
      else
        (case deleteFromNode (RootID bt) key bt of
           None \<Rightarrow> None
         | Some (Inl p) \<Rightarrow> Some (Inl p)
         | Some (Inr (deleted, bt1)) \<Rightarrow>
        (case getNode bt1 (RootID bt1) of
           Inl p \<Rightarrow> Some (Inl p)
         | Inr rootNode \<Rightarrow>
             if length (Keys rootNode) = 0 \<and> \<not> IsLeaf rootNode then
               (case elem_at (Children rootNode) 0 of
                  Inl p \<Rightarrow> Some (Inl p)
                | Inr newRootID \<Rightarrow>
               (case getNode bt1 newRootID of
                  Inl p \<Rightarrow> Some (Inl p)
                | Inr newRoot \<Rightarrow>
                    (let bt2 = (setNode newRootID (newRoot\<lparr>Parent := []\<rparr>) bt1)
                                 \<lparr>RootID := newRootID\<rparr>
                     in Some (Inr (deleted,
                                   bt2\<lparr>Nodes := AList.delete (RootID bt1) (Nodes bt2)\<rparr>)))))
             else Some (Inr (deleted, bt1)))))"

text \<open>Sequences of insertions and deletions; the deletions report what each returned.\<close>

fun insert_all :: "int list \<Rightarrow> BTree \<Rightarrow> (go_panic + BTree) option" where
  "insert_all [] bt = Some (Inr bt)"
| "insert_all (k # ks) bt =
     (case BTree_Insert k bt of
        None \<Rightarrow> None
      | Some (Inl p) \<Rightarrow> Some (Inl p)
      | Some (Inr bt1) \<Rightarrow> insert_all ks bt1)"

fun delete_all :: "int list \<Rightarrow> BTree \<Rightarrow> (go_panic + bool list \<times> BTree) option" where
  "delete_all [] bt = Some (Inr ([], bt))"
| "delete_all (k # ks) bt =
     (case BTree_Delete k bt of
        None \<Rightarrow> None
      | Some (Inl p) \<Rightarrow> Some (Inl p)
      | Some (Inr (d, bt1)) \<Rightarrow>
          (case delete_all ks bt1 of
             None \<Rightarrow> None
           | Some (Inl p) \<Rightarrow> Some (Inl p)
           | Some (Inr (ds, bt2)) \<Rightarrow> Some (Inr (d # ds, bt2))))"

subsection \<open>What the operations leave alone\<close>

text \<open>
  \<open>no_empty_id\<close>: the empty string is not a node id. \<open>frame bt bt'\<close>: same root
  id, and \<open>bt'\<close> has no empty node id if \<open>bt\<close> has none.
\<close>

definition no_empty_id :: "BTree \<Rightarrow> bool" where
  "no_empty_id bt = (map_of (Nodes bt) [] = None)"

definition frame :: "BTree \<Rightarrow> BTree \<Rightarrow> bool" where
  "frame bt bt' = (RootID bt' = RootID bt \<and> (no_empty_id bt \<longrightarrow> no_empty_id bt'))"

lemma frame_refl: "frame bt bt"
  by (simp add: frame_def)

lemma frame_trans: "frame a b \<Longrightarrow> frame b c \<Longrightarrow> frame a c"
  by (simp add: frame_def)

lemma getNode_Inr: "getNode bt k = Inr n \<Longrightarrow> map_of (Nodes bt) k = Some n"
  by (simp add: getNode_def split: option.splits)

lemma frame_setNode: "getNode bt k = Inr n \<Longrightarrow> frame bt (setNode k n' bt)"
  by (auto simp: frame_def no_empty_id_def setNode_def update_conv' dest: getNode_Inr)

lemma frame_setNode_nonempty: "k \<noteq> [] \<Longrightarrow> frame bt (setNode k n' bt)"
  by (auto simp: frame_def no_empty_id_def setNode_def update_conv')

lemma frame_delete: "frame bt (bt\<lparr>Nodes := AList.delete k (Nodes bt)\<rparr>)"
  by (auto simp: frame_def no_empty_id_def delete_conv')

lemma frame_setParents: "setParents cs pid bt = Inr bt' \<Longrightarrow> frame bt bt'"
proof (induction cs arbitrary: bt)
  case Nil
  then show ?case by (simp add: frame_refl)
next
  case (Cons c cs)
  from Cons.prems obtain child where c: "getNode bt c = Inr child"
    and rest: "setParents cs pid (setNode c (child\<lparr>Parent := pid\<rparr>) bt) = Inr bt'"
    by (auto split: sum.splits)
  from frame_setNode [OF c] Cons.IH [OF rest] show ?case
    by (rule frame_trans)
qed

lemma frame_createNode: "frame bt (snd (createNode lf bt))"
  by (auto simp: frame_def no_empty_id_def createNode_def Let_def update_conv')

lemma createNode_id_nonempty: "node_ID (fst (createNode lf bt)) \<noteq> []"
  by (simp add: createNode_def Let_def)

lemma getNode_setNode_same: "getNode (setNode k n bt) k = Inr n"
  by (simp add: getNode_def setNode_def update_conv')

lemma frame_step: "frame bt s \<Longrightarrow> getNode s k = Inr n \<Longrightarrow> frame bt (setNode k n' s)"
  by (blast intro: frame_trans frame_setNode)

lemma frame_step_delete: "frame bt s \<Longrightarrow> frame bt (s\<lparr>Nodes := AList.delete k (Nodes s)\<rparr>)"
  by (blast intro: frame_trans frame_delete)

lemma frame_borrowFromLeft: "borrowFromLeft pid i bt = Inr bt' \<Longrightarrow> frame bt bt'"
  unfolding borrowFromLeft_def Let_def
  by (auto split: sum.splits if_splits simp: getNode_setNode_same
      intro!: frame_step frame_refl)

lemma frame_borrowFromRight: "borrowFromRight pid i bt = Inr bt' \<Longrightarrow> frame bt bt'"
  unfolding borrowFromRight_def Let_def
  by (auto split: sum.splits if_splits simp: getNode_setNode_same
      intro!: frame_step frame_refl)

lemma frame_mergeChildren: "mergeChildren pid i bt = Inr bt' \<Longrightarrow> frame bt bt'"
  unfolding mergeChildren_def Let_def
  by (auto split: sum.splits if_splits simp: getNode_setNode_same
      intro!: frame_step frame_step_delete frame_refl
      intro: frame_trans [OF _ frame_setParents])

lemma frame_fillChild: "fillChild pid i bt = Inr bt' \<Longrightarrow> frame bt bt'"
  unfolding fillChild_def Let_def
  by (auto split: sum.splits if_splits bool.splits
      intro: frame_borrowFromLeft frame_borrowFromRight frame_mergeChildren)


lemma frame_deleteFromNode_aux:
  assumes "deleteFromNode nid0 key0 bt0 = Some r0"
  shows "case r0 of Inl _ \<Rightarrow> True | Inr (d, bt') \<Rightarrow> frame bt0 bt'"
proof (rule deleteFromNode.raw_induct [OF _ assms], goal_cases)
  case (1 rec_call nid key bt r)
  have rec: "\<And>n k s bt' d. frame bt s \<Longrightarrow> rec_call n k s = Some (Inr (d, bt'))
      \<Longrightarrow> frame bt bt'"
  proof -
    fix n k s bt' d
    assume f: "frame bt s" and c: "rec_call n k s = Some (Inr (d, bt'))"
    from 1(1) [OF c] have "frame s bt'" by simp
    with f show "frame bt bt'" by (rule frame_trans)
  qed
  show ?case
  proof (cases r)
    case (Inl p)
    then show ?thesis by simp
  next
    case (Inr res)
    obtain d bt' where res: "res = (d, bt')" by (cases res)
    have "frame bt bt'"
      using 1(2) unfolding Inr res Let_def
      by (auto split: sum.splits if_splits option.splits
          intro!: frame_refl frame_step
          elim!: rec [rotated]
          intro: frame_mergeChildren frame_fillChild)
    with Inr res show ?thesis by simp
  qed
qed

lemma frame_deleteFromNode:
  "deleteFromNode nid key bt = Some (Inr (d, bt')) \<Longrightarrow> frame bt bt'"
  using frame_deleteFromNode_aux [of nid key bt "Inr (d, bt')"] by simp


lemma frame_RootID: "frame bt bt' \<Longrightarrow> RootID bt' = RootID bt"
  by (simp add: frame_def)

lemma frame_no_empty_id: "frame bt bt' \<Longrightarrow> no_empty_id bt \<Longrightarrow> no_empty_id bt'"
  by (simp add: frame_def)

lemma getNode_nonempty: "getNode bt k = Inr n \<Longrightarrow> no_empty_id bt \<Longrightarrow> k \<noteq> []"
  by (auto simp: getNode_def no_empty_id_def split: option.splits)

lemma Delete_keeps_root:
  assumes "BTree_Delete key bt = Some (Inr (d, bt'))" and "RootID bt \<noteq> []" and "no_empty_id bt"
  shows "RootID bt' \<noteq> [] \<and> no_empty_id bt'"
proof -
  from assms(1,2) obtain d1 bt1 where del: "deleteFromNode (RootID bt) key bt = Some (Inr (d1, bt1))"
    by (auto simp: BTree_Delete_def split: option.splits sum.splits)
  from frame_deleteFromNode [OF del] have fr: "frame bt bt1" .
  then have r1: "RootID bt1 = RootID bt" and ne1: "no_empty_id bt1"
    using assms(3) by (simp_all add: frame_def)
  from assms(1,2) del obtain rootNode where rn: "getNode bt1 (RootID bt1) = Inr rootNode"
    by (auto simp: BTree_Delete_def split: sum.splits)
  show ?thesis
  proof (cases "length (Keys rootNode) = 0 \<and> \<not> IsLeaf rootNode")
    case False
    with assms(1,2) del rn have "bt' = bt1"
      by (auto simp: BTree_Delete_def)
    with r1 ne1 assms(2) show ?thesis by simp
  next
    case True
    with assms(1,2) del rn obtain newRootID newRoot where
      nid: "elem_at (Children rootNode) 0 = Inr newRootID"
      and nr: "getNode bt1 newRootID = Inr newRoot"
      and bt': "bt' = ((setNode newRootID (newRoot\<lparr>Parent := []\<rparr>) bt1)\<lparr>RootID := newRootID\<rparr>)
          \<lparr>Nodes := AList.delete (RootID bt1)
             (Nodes ((setNode newRootID (newRoot\<lparr>Parent := []\<rparr>) bt1)\<lparr>RootID := newRootID\<rparr>))\<rparr>"
      by (auto simp: BTree_Delete_def Let_def split: sum.splits)
    from getNode_nonempty [OF nr ne1] have "newRootID \<noteq> []" .
    moreover have "no_empty_id bt'"
      using ne1 \<open>newRootID \<noteq> []\<close>
      by (simp add: bt' no_empty_id_def setNode_def update_conv' delete_conv')
    ultimately show ?thesis by (simp add: bt')
  qed
qed

lemma delete_all_keeps_root:
  "delete_all ds bt = Some (Inr (rs, bt')) \<Longrightarrow> RootID bt \<noteq> [] \<Longrightarrow> no_empty_id bt
   \<Longrightarrow> RootID bt' \<noteq> [] \<and> no_empty_id bt'"
proof (induction ds arbitrary: bt rs)
  case Nil
  then show ?case by simp
next
  case (Cons k ks)
  from Cons.prems(1) obtain d bt1 rs1 where d: "BTree_Delete k bt = Some (Inr (d, bt1))"
    and rest: "delete_all ks bt1 = Some (Inr (rs1, bt'))"
    by (auto split: option.splits sum.splits)
  from Delete_keeps_root [OF d Cons.prems(2,3)] Cons.IH [OF rest] show ?case by simp
qed

lemma createNode_getNode:
  "createNode lf bt = (n, bt1) \<Longrightarrow> getNode bt1 (node_ID n) = Inr n"
  by (auto simp: createNode_def Let_def getNode_def update_conv')

lemma createNode_frame: "createNode lf bt = (n, bt1) \<Longrightarrow> frame bt bt1"
  using frame_createNode [of bt lf] by simp

lemma frame_step_any:
  "getNode s0 k = Inr n \<Longrightarrow> frame bt s0 \<Longrightarrow> frame bt s \<Longrightarrow> frame bt (setNode k n' s)"
  by (auto simp: frame_def no_empty_id_def setNode_def update_conv' dest: getNode_Inr)

lemma frame_splitChild:
  assumes "splitChild pid i bt = Inr bt'"
  shows "frame bt bt'"
proof -
  from assms obtain parent where p: "getNode bt pid = Inr parent"
    unfolding splitChild_def by (auto split: sum.splits)
  from assms p obtain fullID where fid: "elem_at (Children parent) i = Inr fullID"
    unfolding splitChild_def by (auto split: sum.splits)
  from assms p fid obtain fullChild where f: "getNode bt fullID = Inr fullChild"
    unfolding splitChild_def by (auto split: sum.splits)
  obtain newNode bt1 where cn: "createNode (IsLeaf fullChild) bt = (newNode, bt1)"
    by (cases "createNode (IsLeaf fullChild) bt")
  have f1: "frame bt bt1" by (rule createNode_frame [OF cn])
  have g1: "getNode bt1 (node_ID newNode) = Inr newNode" by (rule createNode_getNode [OF cn])
  have two: "\<And>a b. frame bt (setNode fullID a (setNode (node_ID newNode) b bt1))"
    by (intro frame_step_any [OF f frame_refl] frame_step_any [OF g1 f1] f1)
  from assms p fid f cn obtain medianKey where
    mk: "elem_at (Keys fullChild) (half (Order bt - 1)) = Inr medianKey"
    unfolding splitChild_def Let_def by (auto split: sum.splits)
  define mid where "mid = half (Order bt - 1)"
  define newNode1 where
    "newNode1 = newNode\<lparr>Parent := pid, Keys := drop (nat mid + 1) (Keys fullChild)\<rparr>"
  define fullChild1 where "fullChild1 = fullChild\<lparr>Keys := take (nat mid) (Keys fullChild)\<rparr>"
  define moved where "moved = drop (nat mid + 1) (Children fullChild)"
  define mid_result where "mid_result =
     (if \<not> IsLeaf fullChild then
        (if nat mid + 1 > length (Children fullChild) then Inl IndexOutOfRange
         else setParents moved (node_ID newNode)
                (setNode fullID
                   (fullChild1\<lparr>Children := take (nat mid + 1) (Children fullChild)\<rparr>)
                   (setNode (node_ID newNode) (newNode1\<lparr>Children := moved\<rparr>) bt1)))
      else Inr (setNode fullID fullChild1 (setNode (node_ID newNode) newNode1 bt1)))"
  from assms p fid f cn mk obtain bt3 where m3: "mid_result = Inr bt3"
    unfolding splitChild_def Let_def mid_result_def moved_def fullChild1_def newNode1_def mid_def
    by (auto split: sum.splits)
  have fr3: "frame bt bt3"
  proof (cases "IsLeaf fullChild")
    case True
    with m3 show ?thesis
      by (auto simp: mid_result_def intro: two)
  next
    case False
    with m3 have "setParents moved (node_ID newNode)
        (setNode fullID (fullChild1\<lparr>Children := take (nat mid + 1) (Children fullChild)\<rparr>)
           (setNode (node_ID newNode) (newNode1\<lparr>Children := moved\<rparr>) bt1)) = Inr bt3"
      by (auto simp: mid_result_def split: if_splits)
    from frame_trans [OF two frame_setParents [OF this]] show ?thesis .
  qed
  from assms p fid f cn mk m3 obtain parent1 keys' children' where
    bt': "bt' = setNode pid (parent1\<lparr>Keys := keys', Children := children'\<rparr>) bt3"
    unfolding splitChild_def Let_def mid_result_def moved_def fullChild1_def newNode1_def mid_def
    by (auto split: sum.splits)
  show ?thesis
    unfolding bt' by (rule frame_step_any [OF p frame_refl fr3])
qed

lemma frame_insertNonFull_aux:
  assumes "insertNonFull nid0 key0 bt0 = Some r0"
  shows "case r0 of Inl _ \<Rightarrow> True | Inr bt' \<Rightarrow> frame bt0 bt'"
proof (rule insertNonFull.raw_induct [OF _ assms], goal_cases)
  case (1 rec_call nid key bt r)
  have rec: "\<And>n k s bt'. frame bt s \<Longrightarrow> rec_call n k s = Some (Inr bt') \<Longrightarrow> frame bt bt'"
  proof -
    fix n k s bt'
    assume f: "frame bt s" and c: "rec_call n k s = Some (Inr bt')"
    from 1(1) [OF c] have "frame s bt'" by simp
    with f show "frame bt bt'" by (rule frame_trans)
  qed
  show ?case
  proof (cases r)
    case (Inl p)
    then show ?thesis by simp
  next
    case (Inr bt')
    have "frame bt bt'"
      using 1(2) unfolding Inr Let_def
      by (auto split: sum.splits if_splits
          intro!: frame_refl frame_step
          elim!: rec [rotated]
          intro: frame_splitChild)
    with Inr show ?thesis by simp
  qed
qed

lemma frame_insertNonFull: "insertNonFull nid key bt = Some (Inr bt') \<Longrightarrow> frame bt bt'"
  using frame_insertNonFull_aux [of nid key bt "Inr bt'"] by simp

lemma Insert_sets_root:
  assumes "BTree_Insert key bt = Some (Inr bt')" and "no_empty_id bt"
  shows "RootID bt' \<noteq> [] \<and> no_empty_id bt'"
proof (cases "RootID bt = []")
  case True
  obtain n bt1 where cn: "createNode True bt = (n, bt1)"
    by (cases "createNode True bt")
  with assms(1) True have bt': "bt' = (setNode (node_ID n) (n\<lparr>Keys := Keys n @ [key]\<rparr>) bt1)
      \<lparr>RootID := node_ID n\<rparr>"
    by (simp add: BTree_Insert_def)
  have id: "node_ID n \<noteq> []"
    using createNode_id_nonempty [of True bt] cn by simp
  have "no_empty_id bt1"
    using createNode_frame [OF cn] assms(2) by (rule frame_no_empty_id)
  with id show ?thesis
    by (simp add: bt' no_empty_id_def setNode_def update_conv')
next
  case False
  from assms(1) False obtain rootNode where rn: "getNode bt (RootID bt) = Inr rootNode"
    by (auto simp: BTree_Insert_def split: sum.splits)
  show ?thesis
  proof (cases "int (length (Keys rootNode)) = Order bt - 1")
    case nofull: False
    with assms(1) False rn have "insertNonFull (RootID bt) key bt = Some (Inr bt')"
      by (simp add: BTree_Insert_def)
    from frame_insertNonFull [OF this] False assms(2) show ?thesis
      by (simp add: frame_def)
  next
    case True
    obtain n bt1 where cn: "createNode False bt = (n, bt1)"
      by (cases "createNode False bt")
    define bt2 where "bt2 = setNode (node_ID n) (n\<lparr>Children := [RootID bt]\<rparr>) bt1"
    from assms(1) False rn True cn obtain rootNode1 bt4 where
      r1: "getNode bt2 (RootID bt) = Inr rootNode1"
      and sp: "splitChild (node_ID n) 0
          ((setNode (RootID bt) (rootNode1\<lparr>Parent := node_ID n\<rparr>) bt2)\<lparr>RootID := node_ID n\<rparr>)
          = Inr bt4"
      and ins: "insertNonFull (node_ID n) key bt4 = Some (Inr bt')"
      by (auto simp: BTree_Insert_def Let_def bt2_def split: sum.splits)
    have id: "node_ID n \<noteq> []"
      using createNode_id_nonempty [of False bt] cn by simp
    have "no_empty_id bt1"
      using createNode_frame [OF cn] assms(2) by (rule frame_no_empty_id)
    then have "no_empty_id bt2"
      using id by (simp add: bt2_def no_empty_id_def setNode_def update_conv')
    then have ne3: "no_empty_id
        ((setNode (RootID bt) (rootNode1\<lparr>Parent := node_ID n\<rparr>) bt2)\<lparr>RootID := node_ID n\<rparr>)"
      using False by (simp add: no_empty_id_def setNode_def update_conv')
    from frame_splitChild [OF sp] ne3 have "RootID bt4 = node_ID n" "no_empty_id bt4"
      by (simp_all add: frame_def)
    with frame_insertNonFull [OF ins] id show ?thesis
      by (simp add: frame_def)
  qed
qed

lemma insert_all_sets_root:
  "insert_all ks bt = Some (Inr bt') \<Longrightarrow> ks \<noteq> [] \<or> RootID bt \<noteq> [] \<Longrightarrow> no_empty_id bt
   \<Longrightarrow> RootID bt' \<noteq> [] \<and> no_empty_id bt'"
proof (induction ks arbitrary: bt)
  case Nil
  then show ?case by simp
next
  case (Cons k ks)
  from Cons.prems(1) obtain bt1 where i: "BTree_Insert k bt = Some (Inr bt1)"
    and rest: "insert_all ks bt1 = Some (Inr bt')"
    by (auto split: option.splits sum.splits)
  from Insert_sets_root [OF i Cons.prems(3)] Cons.IH [OF rest] show ?case by simp
qed

lemma no_empty_id_New: "no_empty_id (NewBTree m)"
  by (simp add: no_empty_id_def NewBTree_def)

subsection \<open>A tree that stays a single leaf\<close>

definition leaf_node :: "int list \<Rightarrow> BTreeNode" where
  "leaf_node ks =
     \<lparr>node_ID = ''node-1'', Keys = ks, Children = [], IsLeaf = True, Parent = []\<rparr>"

definition leaf_tree :: "int \<Rightarrow> int list \<Rightarrow> BTree" where
  "leaf_tree m ks =
     \<lparr>Order = m, RootID = ''node-1'', Nodes = [(''node-1'', leaf_node ks)], nodeSeq = 1\<rparr>"

text \<open>What the leaf branches of \<open>insertNonFull\<close> and \<open>deleteFromNode\<close> do to the keys.\<close>

definition leaf_insert :: "int \<Rightarrow> int list \<Rightarrow> int list" where
  "leaf_insert k ks =
     (let j = scan_down k ks (length ks) in take j ks @ [k] @ drop j ks)"

definition leaf_delete :: "int \<Rightarrow> int list \<Rightarrow> int list" where
  "leaf_delete k ks =
     (let i = scan_up k ks
      in if i < length ks \<and> ks ! i = k then take i ks @ drop (i + 1) ks else ks)"

lemma Insert_New:
  "BTree_Insert k (NewBTree m0) = Some (Inr (leaf_tree (Order (NewBTree m0)) [k]))"
  by (simp add: BTree_Insert_def NewBTree_def createNode_def setNode_def leaf_tree_def leaf_node_def
      Let_def sprint_d_small digit_char_def)

lemma Insert_leaf_tree:
  assumes "int (length ks) \<noteq> m - 1"
  shows "BTree_Insert k (leaf_tree m ks) = Some (Inr (leaf_tree m (leaf_insert k ks)))"
proof -
  have g: "getNode (leaf_tree m ks) ''node-1'' = Inr (leaf_node ks)"
    by (simp add: getNode_def leaf_tree_def)
  have "insertNonFull ''node-1'' k (leaf_tree m ks)
      = Some (Inr (leaf_tree m (leaf_insert k ks)))"
    by (subst insertNonFull.simps)
      (simp add: getNode_def leaf_node_def leaf_tree_def setNode_def leaf_insert_def Let_def)
  with assms g show ?thesis
    by (simp add: BTree_Insert_def leaf_tree_def leaf_node_def)
qed

lemma Delete_leaf_tree:
  "BTree_Delete k (leaf_tree m ks)
     = Some (Inr (scan_up k ks < length ks \<and> ks ! scan_up k ks = k,
                  leaf_tree m (leaf_delete k ks)))"
proof -
  have g: "\<And>xs. getNode (leaf_tree m xs) ''node-1'' = Inr (leaf_node xs)"
    by (simp add: getNode_def leaf_tree_def)
  have "deleteFromNode ''node-1'' k (leaf_tree m ks)
      = Some (Inr (scan_up k ks < length ks \<and> ks ! scan_up k ks = k,
                   leaf_tree m (leaf_delete k ks)))"
    by (subst deleteFromNode.simps)
      (auto simp: getNode_def leaf_node_def leaf_tree_def setNode_def leaf_delete_def Let_def
        removeAt_def)
  moreover have "RootID (leaf_tree m ks) = ''node-1''"
    "\<And>xs. RootID (leaf_tree m xs) = ''node-1''"
    by (simp_all add: leaf_tree_def)
  ultimately show ?thesis
    by (simp add: BTree_Delete_def g leaf_node_def)
qed

lemma scan_down_bounds:
  assumes "sorted ks" and "n \<le> length ks"
  shows "scan_down k ks n \<le> n
       \<and> (\<forall>i < scan_down k ks n. ks ! i \<le> k)
       \<and> (\<forall>i. scan_down k ks n \<le> i \<and> i < n \<longrightarrow> k < ks ! i)"
  using assms(2)
proof (induction n)
  case 0
  then show ?case by simp
next
  case (Suc n)
  show ?case
  proof (cases "k < ks ! n")
    case True
    with Suc show ?thesis
      by (auto simp: less_Suc_eq)
  next
    case False
    have "\<forall>i < Suc n. ks ! i \<le> ks ! n"
      using assms(1) Suc.prems by (auto simp: sorted_iff_nth_mono)
    with False show ?thesis by fastforce
  qed
qed

lemma sorted_leaf_insert:
  assumes "sorted ks"
  shows "sorted (leaf_insert k ks)"
proof -
  define j where "j = scan_down k ks (length ks)"
  from scan_down_bounds [OF assms le_refl, of k]
  have j: "j \<le> length ks" "\<forall>i < j. ks ! i \<le> k" "\<forall>i. j \<le> i \<and> i < length ks \<longrightarrow> k < ks ! i"
    by (simp_all add: j_def)
  have lo: "\<forall>x \<in> set (take j ks). x \<le> k"
    using j(1,2) by (auto simp: in_set_conv_nth)
  have hi: "\<forall>y \<in> set (drop j ks). k < y"
    using j(1,3) by (auto simp: in_set_conv_nth)
  have "sorted (take j ks)" "sorted (drop j ks)"
    using assms by (simp_all add: sorted_wrt_take sorted_wrt_drop)
  with lo hi show ?thesis
    unfolding leaf_insert_def Let_def j_def [symmetric]
    by (fastforce simp: sorted_append)
qed

lemma mset_leaf_insert: "mset (leaf_insert k ks) = add_mset k (mset ks)"
proof -
  have "mset (take j ks) + mset (drop j ks) = mset ks" for j
    by (metis append_take_drop_id mset_append)
  then show ?thesis
    by (simp add: leaf_insert_def Let_def)
qed

lemma length_leaf_insert: "length (leaf_insert k ks) = Suc (length ks)"
  using arg_cong [OF mset_leaf_insert, of size k ks] by simp

lemma leaf_delete_remove1: "sorted ks \<Longrightarrow> leaf_delete k ks = remove1 k ks"
proof (induction ks)
  case Nil
  then show ?case by (simp add: leaf_delete_def)
next
  case (Cons x xs)
  then have IH: "leaf_delete k xs = remove1 k xs" by simp
  show ?case
  proof (cases "k > x")
    case True
    with IH show ?thesis
      by (auto simp: leaf_delete_def Let_def)
  next
    case False
    show ?thesis
    proof (cases "x = k")
      case True
      then show ?thesis by (simp add: leaf_delete_def)
    next
      case neq: False
      with False have "k < x" by simp
      with Cons.prems have "k \<notin> set xs" by auto
      with False neq show ?thesis
        by (simp add: leaf_delete_def remove1_idem)
    qed
  qed
qed

lemma scan_up_finds:
  "sorted ks \<Longrightarrow> k \<in> set ks \<Longrightarrow> scan_up k ks < length ks \<and> ks ! scan_up k ks = k"
proof (induction ks)
  case Nil
  then show ?case by simp
next
  case (Cons x xs)
  show ?case
  proof (cases "k > x")
    case True
    with Cons show ?thesis by auto
  next
    case False
    with Cons.prems have "x = k" by auto
    then show ?thesis by simp
  qed
qed

lemma insert_all_leaf_tree:
  "int (length acc + length ks) \<le> m - 1
   \<Longrightarrow> insert_all ks (leaf_tree m acc) = Some (Inr (leaf_tree m (fold leaf_insert ks acc)))"
proof (induction ks arbitrary: acc)
  case Nil
  then show ?case by simp
next
  case (Cons k ks)
  from Cons.prems have "int (length acc) \<noteq> m - 1" by simp
  then have i: "BTree_Insert k (leaf_tree m acc) = Some (Inr (leaf_tree m (leaf_insert k acc)))"
    by (rule Insert_leaf_tree)
  have "int (length (leaf_insert k acc) + length ks) \<le> m - 1"
    using Cons.prems by (simp add: length_leaf_insert)
  from Cons.IH [OF this] i show ?case by simp
qed

lemma fold_leaf_insert:
  "sorted acc \<Longrightarrow> sorted (fold leaf_insert ks acc)
     \<and> mset (fold leaf_insert ks acc) = mset ks + mset acc"
  by (induction ks arbitrary: acc) (simp_all add: sorted_leaf_insert mset_leaf_insert)

lemma delete_all_leaf_tree:
  "sorted xs \<Longrightarrow> mset ds \<subseteq># mset xs
   \<Longrightarrow> \<exists>ys. delete_all ds (leaf_tree m xs)
          = Some (Inr (replicate (length ds) True, leaf_tree m ys))
        \<and> mset ys = mset xs - mset ds"
proof (induction ds arbitrary: xs)
  case Nil
  then show ?case by (auto intro: exI [of _ xs])
next
  case (Cons d ds)
  from Cons.prems(2) have d: "d \<in> set xs"
    by (metis insert_subset_eq_iff mset.simps(2) set_mset_mset)
  from scan_up_finds [OF Cons.prems(1) d]
  have del: "BTree_Delete d (leaf_tree m xs) = Some (Inr (True, leaf_tree m (remove1 d xs)))"
    by (simp add: Delete_leaf_tree leaf_delete_remove1 [OF Cons.prems(1)])
  have s: "sorted (remove1 d xs)"
    using Cons.prems(1) by (rule sorted_remove1)
  have sub: "mset ds \<subseteq># mset (remove1 d xs)"
    using Cons.prems(2) d by (simp add: insert_subset_eq_iff)
  from Cons.IH [OF s sub] obtain ys where
    ys: "delete_all ds (leaf_tree m (remove1 d xs))
        = Some (Inr (replicate (length ds) True, leaf_tree m ys))"
    "mset ys = mset (remove1 d xs) - mset ds"
    by blast
  from del ys(1) have "delete_all (d # ds) (leaf_tree m xs)
      = Some (Inr (replicate (length (d # ds)) True, leaf_tree m ys))"
    by simp
  moreover from ys(2) d have "mset ys = mset xs - mset (d # ds)"
    by simp
  ultimately show ?case by blast
qed

lemma single_leaf_round_trip:
  assumes "ks \<noteq> []" and "int (length ks) \<le> Order (NewBTree m0) - 1" and "mset ds = mset ks"
  shows "\<exists>bt1. insert_all ks (NewBTree m0) = Some (Inr bt1)
           \<and> delete_all ds bt1
               = Some (Inr (replicate (length ds) True, leaf_tree (Order (NewBTree m0)) []))"
proof -
  define m where "m = Order (NewBTree m0)"
  obtain k rest where ks: "ks = k # rest"
    using assms(1) by (cases ks) auto
  have "int (length [k] + length rest) \<le> m - 1"
    using assms(2) by (simp add: ks m_def)
  from insert_all_leaf_tree [OF this]
  have ins: "insert_all ks (NewBTree m0) = Some (Inr (leaf_tree m (fold leaf_insert rest [k])))"
    by (simp add: ks Insert_New m_def)
  have so: "sorted (fold leaf_insert rest [k])"
    and ms: "mset (fold leaf_insert rest [k]) = mset ks"
    using fold_leaf_insert [of "[k]" rest] by (simp_all add: ks)
  have "mset ds \<subseteq># mset (fold leaf_insert rest [k])"
    by (simp add: ms assms(3))
  from delete_all_leaf_tree [OF so this, of m] obtain ys where
    "delete_all ds (leaf_tree m (fold leaf_insert rest [k]))
       = Some (Inr (replicate (length ds) True, leaf_tree m ys))"
    and "mset ys = mset (fold leaf_insert rest [k]) - mset ds"
    by blast
  with ms assms(3) have "delete_all ds (leaf_tree m (fold leaf_insert rest [k]))
       = Some (Inr (replicate (length ds) True, leaf_tree m []))"
    by simp
  with ins show ?thesis
    by (auto simp: m_def)
qed

subsection \<open>Insertions followed by deletions\<close>

definition insert_then_delete ::
  "int \<Rightarrow> int list \<Rightarrow> int list \<Rightarrow> (go_panic + bool list \<times> BTree) option" where
  "insert_then_delete m ks ds =
     (case insert_all ks (NewBTree m) of
        None \<Rightarrow> None
      | Some (Inl p) \<Rightarrow> Some (Inl p)
      | Some (Inr bt) \<Rightarrow> delete_all ds bt)"

text \<open>The root id and, for each node in \<open>Nodes\<close>, its id, keys, children and leaf flag.\<close>

definition tree_shape ::
  "BTree \<Rightarrow> string \<times> (string \<times> int list \<times> string list \<times> bool) list" where
  "tree_shape bt = (RootID bt, map (\<lambda>(k, n). (k, Keys n, Children n, IsLeaf n)) (Nodes bt))"

definition run_shape ::
  "int \<Rightarrow> int list \<Rightarrow> int list
     \<Rightarrow> (go_panic + bool list \<times> string \<times> (string \<times> int list \<times> string list \<times> bool) list) option"
  where
  "run_shape m ks ds = map_option (map_sum id (map_prod id tree_shape)) (insert_then_delete m ks ds)"

text \<open>
  C1. Order 3, keys 1, 3, 2: the root \<open>[1, 3]\<close> is full when 2 arrives and is split
  with \<open>mid = 1\<close>; the new right node gets the keys after the median, none, and 2 goes
  left. The leaf \<open>node-3\<close> is left with no key, below \<open>\<lceil>3/2\<rceil> - 1 = 1\<close>, which is
  also the \<open>minKeys\<close> that the deletion code works with. Order 5, keys 1, 2, 4, 5, 3:
  the right node keeps one key, below 2. On such a tree a deletion can panic: order 3,
  keys 1, 4, 2, 3, 5, then \<open>Delete(5)\<close>.
\<close>

theorem split_underfull_node_order_3:
  "run_shape 3 [1, 3, 2] []
     = Some (Inr ([], ''node-2'',
          [(''node-1'', [1, 2], [], True),
           (''node-2'', [3], [''node-1'', ''node-3''], False),
           (''node-3'', [], [], True)]))
   \<and> half (Order (NewBTree 3) - 1) = 1
   \<and> run_shape 5 [1, 2, 4, 5, 3] []
     = Some (Inr ([], ''node-2'',
          [(''node-1'', [1, 2, 3], [], True),
           (''node-2'', [4], [''node-1'', ''node-3''], False),
           (''node-3'', [5], [], True)]))
   \<and> half (Order (NewBTree 5) - 1) = 2
   \<and> run_shape 3 [1, 4, 2, 3, 5] [5] = Some (Inl IndexOutOfRange)"
  by code_simp


text \<open>
  No deletion clears the root id: after any insertions (at least one) and any
  deletions that return, \<open>RootID\<close> is not empty; \<open>Delete\<close> replaces the root only when
  it is an internal node without keys. When the inserted keys fit one leaf (at most
  \<open>Order - 1\<close> of them), deleting them all, in any order, finds every key and leaves the
  root \<open>node-1\<close> in place as a leaf without keys.
\<close>

lemma delete_keeps_root_and_empties_single_leaf:
  "(insert_then_delete m ks ds = Some (Inr (rs, bt')) \<and> ks \<noteq> [] \<longrightarrow> RootID bt' \<noteq> [])
   \<and> (ks \<noteq> [] \<and> int (length ks) \<le> Order (NewBTree m) - 1 \<and> mset ds = mset ks \<longrightarrow>
        insert_then_delete m ks ds
          = Some (Inr (replicate (length ds) True, leaf_tree (Order (NewBTree m)) [])))"
proof -
  have a: "RootID bt' \<noteq> []" if r: "insert_then_delete m ks ds = Some (Inr (rs, bt'))"
    and ne: "ks \<noteq> []"
  proof -
    from r obtain bt1 where i: "insert_all ks (NewBTree m) = Some (Inr bt1)"
      and d: "delete_all ds bt1 = Some (Inr (rs, bt'))"
      by (auto simp: insert_then_delete_def split: option.splits sum.splits)
    from insert_all_sets_root [OF i _ no_empty_id_New] ne
    have "RootID bt1 \<noteq> []" "no_empty_id bt1" by simp_all
    with delete_all_keeps_root [OF d] show ?thesis by simp
  qed
  have b: "insert_then_delete m ks ds
      = Some (Inr (replicate (length ds) True, leaf_tree (Order (NewBTree m)) []))"
    if "ks \<noteq> []" and "int (length ks) \<le> Order (NewBTree m) - 1" and "mset ds = mset ks"
    using single_leaf_round_trip [OF that] by (auto simp: insert_then_delete_def)
  from a b show ?thesis by blast
qed

lemma single_leaf_example:
  "run_shape 4 [10, 20, 5] [] = Some (Inr ([], ''node-1'', [(''node-1'', [5, 10, 20], [], True)]))
   \<and> insert_then_delete 4 [10, 20, 5] [20, 5, 10]
       = Some (Inr ([True, True, True], leaf_tree 4 []))
   \<and> tree_shape (leaf_tree 4 []) = (''node-1'', [(''node-1'', [], [], True)])"
proof -
  have h: "[10, 20, 5] \<noteq> ([] :: int list)"
    "int (length [10, 20, 5 :: int]) \<le> Order (NewBTree 4) - 1"
    "mset [20, 5, 10] = mset [10, 20, 5 :: int]"
    by (simp_all add: NewBTree_def)
  have o: "Order (NewBTree 4) = 4"
    by (simp add: NewBTree_def)
  have s: "run_shape 4 [10, 20, 5] []
      = Some (Inr ([], ''node-1'', [(''node-1'', [5, 10, 20], [], True)]))"
    by code_simp
  have t: "tree_shape (leaf_tree 4 []) = (''node-1'', [(''node-1'', [], [], True)])"
    by (simp add: tree_shape_def leaf_tree_def leaf_node_def)
  from delete_keeps_root_and_empties_single_leaf [of 4 "[10, 20, 5]" "[20, 5, 10]"] h o s t
  show ?thesis by simp
qed

lemma keyless_root_remains:
  "run_shape 4 [1] [1] = Some (Inr ([True], ''node-1'', [(''node-1'', [], [], True)]))
   \<and> run_shape 4 [1, 2, 3, 4] []
       = Some (Inr ([], ''node-2'',
            [(''node-1'', [1], [], True),
             (''node-2'', [2], [''node-1'', ''node-3''], False),
             (''node-3'', [3, 4], [], True)]))
   \<and> run_shape 4 [1, 2, 3, 4] [4, 3, 2, 1]
       = Some (Inr ([True, True, True, True], ''node-1'', [(''node-1'', [], [], True)]))"
  by code_simp

text \<open>
  C4. Order 4, keys 1 to 6, then every key deleted in the order 3, 4, 1, 2, 5, 6.
  \<open>Delete(3)\<close> borrows from the right sibling and leaves the leaves \<open>[1]\<close>, \<open>[4]\<close>,
  \<open>[6]\<close> under the root \<open>[2, 5]\<close>. \<open>Delete(4)\<close> descends with child index 1; the
  child \<open>[4]\<close> has the minimum of keys and no sibling can lend, so \<open>fillChild\<close> merges
  it into its left sibling: the root becomes \<open>[5]\<close> and 4 now lies in child 0,
  \<open>[1, 2, 4]\<close>. The index is corrected only when it is greater than the number of keys
  of the node; it is 1, the node has one key, and the descent goes on in child 1,
  \<open>[6]\<close>: \<open>Delete(4)\<close> returns false. After the remaining deletions the tree is
  the leaf \<open>[4]\<close>: not every inserted key was deleted and the tree is not empty.
\<close>

theorem delete_misses_key_after_left_merge:
  "run_shape 4 [1, 2, 3, 4, 5, 6] []
     = Some (Inr ([], ''node-2'',
          [(''node-1'', [1], [], True),
           (''node-2'', [2, 4], [''node-1'', ''node-3'', ''node-4''], False),
           (''node-3'', [3], [], True),
           (''node-4'', [5, 6], [], True)]))
   \<and> run_shape 4 [1, 2, 3, 4, 5, 6] [3]
     = Some (Inr ([True], ''node-2'',
          [(''node-1'', [1], [], True),
           (''node-2'', [2, 5], [''node-1'', ''node-3'', ''node-4''], False),
           (''node-3'', [4], [], True),
           (''node-4'', [6], [], True)]))
   \<and> run_shape 4 [1, 2, 3, 4, 5, 6] [3, 4]
     = Some (Inr ([True, False], ''node-2'',
          [(''node-1'', [1, 2, 4], [], True),
           (''node-2'', [5], [''node-1'', ''node-4''], False),
           (''node-4'', [6], [], True)]))
   \<and> run_shape 4 [1, 2, 3, 4, 5, 6] [3, 4, 1, 2, 5, 6]
     = Some (Inr ([True, False, True, True, True, True], ''node-1'',
          [(''node-1'', [4], [], True)]))"
  by code_simp

section \<open>Query parser (projects/query-parser)\<close>

subsection \<open>Lexer\<close>

text \<open>
  \<open>TokenType\<close> and \<open>ASTNodeType\<close> are Go string types: their values are the
  strings themselves, and \<open>%s\<close> prints them. A Go string is a byte sequence, an
  Isabelle \<open>string\<close>; the lexer reads it byte by byte and classifies \<open>rune(byte)\<close>,
  a code point below 256, with the \<open>unicode\<close> tables for Latin-1.
\<close>

abbreviation TokenSelect :: string where "TokenSelect \<equiv> ''SELECT''"
abbreviation TokenFrom :: string where "TokenFrom \<equiv> ''FROM''"
abbreviation TokenWhere :: string where "TokenWhere \<equiv> ''WHERE''"
abbreviation TokenAnd :: string where "TokenAnd \<equiv> ''AND''"
abbreviation TokenOr :: string where "TokenOr \<equiv> ''OR''"
abbreviation TokenNot :: string where "TokenNot \<equiv> ''NOT''"
abbreviation TokenInsert :: string where "TokenInsert \<equiv> ''INSERT''"
abbreviation TokenInto :: string where "TokenInto \<equiv> ''INTO''"
abbreviation TokenValues :: string where "TokenValues \<equiv> ''VALUES''"
abbreviation TokenUpdate :: string where "TokenUpdate \<equiv> ''UPDATE''"
abbreviation TokenSet :: string where "TokenSet \<equiv> ''SET''"
abbreviation TokenDelete :: string where "TokenDelete \<equiv> ''DELETE''"
abbreviation TokenCreate :: string where "TokenCreate \<equiv> ''CREATE''"
abbreviation TokenTable :: string where "TokenTable \<equiv> ''TABLE''"
abbreviation TokenJoin :: string where "TokenJoin \<equiv> ''JOIN''"
abbreviation TokenOn :: string where "TokenOn \<equiv> ''ON''"
abbreviation TokenAs :: string where "TokenAs \<equiv> ''AS''"
abbreviation TokenOrderBy :: string where "TokenOrderBy \<equiv> ''ORDER BY''"
abbreviation TokenGroupBy :: string where "TokenGroupBy \<equiv> ''GROUP BY''"
abbreviation TokenLimit :: string where "TokenLimit \<equiv> ''LIMIT''"
abbreviation TokenOffset :: string where "TokenOffset \<equiv> ''OFFSET''"
abbreviation TokenIdentifier :: string where "TokenIdentifier \<equiv> ''IDENTIFIER''"
abbreviation TokenNumber :: string where "TokenNumber \<equiv> ''NUMBER''"
abbreviation TokenString :: string where "TokenString \<equiv> ''STRING''"
abbreviation TokenOperator :: string where "TokenOperator \<equiv> ''OPERATOR''"
abbreviation TokenComma :: string where "TokenComma \<equiv> ''COMMA''"
abbreviation TokenStar :: string where "TokenStar \<equiv> ''STAR''"
abbreviation TokenLParen :: string where "TokenLParen \<equiv> ''LPAREN''"
abbreviation TokenRParen :: string where "TokenRParen \<equiv> ''RPAREN''"
abbreviation TokenSemicolon :: string where "TokenSemicolon \<equiv> ''SEMICOLON''"
abbreviation TokenEOF :: string where "TokenEOF \<equiv> ''EOF''"
abbreviation TokenError :: string where "TokenError \<equiv> ''ERROR''"

record Position =
  pos_Start :: nat
  pos_End :: nat

record Token =
  tok_Type :: string
  tok_Value :: string
  tok_Position :: Position

text \<open>The zero \<open>Token\<close> with a type, as in \<open>Token{Type: TokenEOF}\<close>.\<close>

definition token_of_type :: "string \<Rightarrow> Token" where
  "token_of_type t =
     \<lparr>tok_Type = t, tok_Value = [], tok_Position = \<lparr>pos_Start = 0, pos_End = 0\<rparr>\<rparr>"

definition mk_token :: "string \<Rightarrow> string \<Rightarrow> nat \<Rightarrow> nat \<Rightarrow> Token" where
  "mk_token t v s e =
     \<lparr>tok_Type = t, tok_Value = v, tok_Position = \<lparr>pos_Start = s, pos_End = e\<rparr>\<rparr>"

record Lexer =
  lx_input :: string
  lx_pos :: nat
  lx_tokens :: "Token list"
  lx_current :: nat

definition Keywords :: "(string \<times> string) list" where
  "Keywords =
     [(''SELECT'', TokenSelect), (''FROM'', TokenFrom), (''WHERE'', TokenWhere),
      (''AND'', TokenAnd), (''OR'', TokenOr), (''NOT'', TokenNot),
      (''INSERT'', TokenInsert), (''INTO'', TokenInto), (''VALUES'', TokenValues),
      (''UPDATE'', TokenUpdate), (''SET'', TokenSet), (''DELETE'', TokenDelete),
      (''CREATE'', TokenCreate), (''TABLE'', TokenTable), (''JOIN'', TokenJoin),
      (''ON'', TokenOn), (''AS'', TokenAs), (''ORDER'', TokenOrderBy),
      (''GROUP'', TokenGroupBy), (''BY'', TokenIdentifier), (''LIMIT'', TokenLimit),
      (''OFFSET'', TokenOffset)]"

definition NewLexer :: "string \<Rightarrow> Lexer" where
  "NewLexer input = \<lparr>lx_input = input, lx_pos = 0, lx_tokens = [], lx_current = 0\<rparr>"

text \<open>\<open>unicode.IsSpace\<close>, \<open>unicode.IsDigit\<close> and \<open>unicode.IsLetter\<close> below 256.\<close>

definition isSpace :: "char \<Rightarrow> bool" where
  "isSpace c = (let n = (of_char c :: nat) in (9 \<le> n \<and> n \<le> 13) \<or> n = 32 \<or> n = 133 \<or> n = 160)"

definition isDigit :: "char \<Rightarrow> bool" where
  "isDigit c = (let n = (of_char c :: nat) in 48 \<le> n \<and> n \<le> 57)"

definition isLetter :: "char \<Rightarrow> bool" where
  "isLetter c =
     (let n = (of_char c :: nat)
      in (65 \<le> n \<and> n \<le> 90) \<or> (97 \<le> n \<and> n \<le> 122) \<or> n = 170 \<or> n = 181 \<or> n = 186
         \<or> (192 \<le> n \<and> n \<le> 214) \<or> (216 \<le> n \<and> n \<le> 246) \<or> (248 \<le> n \<and> n \<le> 255))"

text \<open>
  \<open>strings.ToUpper\<close> on the letters \<open>a\<close> to \<open>z\<close>. An identifier with a byte
  above 127 is no keyword before or after \<open>ToUpper\<close>, and the token then keeps the
  text as it was read.
\<close>

definition toUpper :: "string \<Rightarrow> string" where
  "toUpper s =
     map (\<lambda>c. case map_of (zip ''abcdefghijklmnopqrstuvwxyz'' ''ABCDEFGHIJKLMNOPQRSTUVWXYZ'') c of
                 None \<Rightarrow> c | Some u \<Rightarrow> u) s"

text \<open>\<open>string(ch)\<close> for a byte: the UTF-8 encoding of the code point \<open>ch\<close>.\<close>

definition string_of_byte :: "char \<Rightarrow> string" where
  "string_of_byte c =
     (let n = (of_char c :: nat)
      in if n < 128 then [c] else [char_of (192 + n div 64), char_of (128 + n mod 64)])"

definition skipWhitespace :: "Lexer \<Rightarrow> Lexer" where
  "skipWhitespace l =
     l\<lparr>lx_pos := lx_pos l + length (takeWhile isSpace (drop (lx_pos l) (lx_input l)))\<rparr>"

definition readOperator :: "nat \<Rightarrow> Lexer \<Rightarrow> Token \<times> Lexer" where
  "readOperator start l =
     (let ch = lx_input l ! lx_pos l;
          l1 = l\<lparr>lx_pos := lx_pos l + 1\<rparr>
      in if lx_pos l1 < length (lx_input l1)
            \<and> (let next = lx_input l1 ! lx_pos l1
               in (ch = CHR ''<'' \<and> next = CHR ''='') \<or> (ch = CHR ''>'' \<and> next = CHR ''='')
                  \<or> (ch = CHR ''!'' \<and> next = CHR ''='') \<or> (ch = CHR ''<'' \<and> next = CHR ''>''))
         then (mk_token TokenOperator
                 (string_of_byte ch @ string_of_byte (lx_input l1 ! lx_pos l1))
                 start (lx_pos l1 + 1),
               l1\<lparr>lx_pos := lx_pos l1 + 1\<rparr>)
         else (mk_token TokenOperator (string_of_byte ch) start (lx_pos l1), l1))"

text \<open>
  The loop of \<open>readString\<close> over the text after the opening quote: how many bytes it
  passes before the closing quote or the end, a backslash taking the next byte along.
\<close>

fun string_scan :: "char \<Rightarrow> string \<Rightarrow> nat" where
  "string_scan q [] = 0"
| "string_scan q [c] = (if c = q then 0 else 1)"
| "string_scan q (c # d # cs) =
     (if c = q then 0
      else if c = CHR 0x5C then 2 + string_scan q cs
      else 1 + string_scan q (d # cs))"

definition readString :: "nat \<Rightarrow> char \<Rightarrow> Lexer \<Rightarrow> Token \<times> Lexer" where
  "readString start quote l =
     (let n = string_scan quote (drop (lx_pos l + 1) (lx_input l));
          l1 = l\<lparr>lx_pos := lx_pos l + 1 + n\<rparr>
      in if lx_pos l1 \<ge> length (lx_input l1)
         then (mk_token TokenError ''unterminated string'' start (lx_pos l1), l1)
         else (mk_token TokenString (take n (drop (start + 1) (lx_input l1)))
                 start (lx_pos l1 + 1),
               l1\<lparr>lx_pos := lx_pos l1 + 1\<rparr>))"

definition readNumber :: "nat \<Rightarrow> Lexer \<Rightarrow> Token \<times> Lexer" where
  "readNumber start l =
     (let n = length (takeWhile (\<lambda>c. isDigit c \<or> c = CHR ''.'') (drop (lx_pos l) (lx_input l)));
          l1 = l\<lparr>lx_pos := lx_pos l + n\<rparr>
      in (mk_token TokenNumber (take (lx_pos l1 - start) (drop start (lx_input l1)))
            start (lx_pos l1), l1))"

definition readIdentifier :: "nat \<Rightarrow> Lexer \<Rightarrow> Token \<times> Lexer" where
  "readIdentifier start l =
     (let n = length (takeWhile (\<lambda>c. isLetter c \<or> isDigit c \<or> c = CHR ''_'')
                        (drop (lx_pos l) (lx_input l)));
          l1 = l\<lparr>lx_pos := lx_pos l + n\<rparr>;
          v = take (lx_pos l1 - start) (drop start (lx_input l1));
          upper = toUpper v
      in case map_of Keywords upper of
           Some tokenType \<Rightarrow> (mk_token tokenType upper start (lx_pos l1), l1)
         | None \<Rightarrow> (mk_token TokenIdentifier v start (lx_pos l1), l1))"

text \<open>\<open>nextToken\<close> is only called with \<open>pos < len(input)\<close>.\<close>

definition nextToken :: "Lexer \<Rightarrow> Token \<times> Lexer" where
  "nextToken l =
     (let start = lx_pos l;
          ch = lx_input l ! lx_pos l;
          single = (\<lambda>t v. (mk_token t v start (start + 1), l\<lparr>lx_pos := start + 1\<rparr>))
      in if ch = CHR '','' then single TokenComma '',''
         else if ch = CHR ''*'' then single TokenStar ''*''
         else if ch = CHR ''('' then single TokenLParen ''(''
         else if ch = CHR '')'' then single TokenRParen '')''
         else if ch = CHR '';'' then single TokenSemicolon '';''
         else if ch = CHR ''='' \<or> ch = CHR ''<'' \<or> ch = CHR ''>'' \<or> ch = CHR ''!''
           then readOperator start l
         else if ch = CHR 0x27 \<or> ch = CHR 0x22 then readString start ch l
         else if isDigit ch then readNumber start l
         else if isLetter ch \<or> ch = CHR ''_'' then readIdentifier start l
         else single TokenError (string_of_byte ch))"

definition TokenizeStep :: "Lexer \<Rightarrow> Token \<times> Lexer" where
  "TokenizeStep l =
     (let l1 = skipWhitespace l
      in if lx_pos l1 \<ge> length (lx_input l1)
         then (mk_token TokenEOF [] (lx_pos l1) (lx_pos l1), l1)
         else (case nextToken l1 of
                 (token, l2) \<Rightarrow> (token, l2\<lparr>lx_tokens := lx_tokens l2 @ [token]\<rparr>)))"

definition HasMore :: "Lexer \<Rightarrow> bool \<times> Lexer" where
  "HasMore l = (let l1 = skipWhitespace l in (lx_pos l1 < length (lx_input l1), l1))"

subsection \<open>Parser\<close>

abbreviation NodeSelect :: string where "NodeSelect \<equiv> ''SELECT''"
abbreviation NodeFrom :: string where "NodeFrom \<equiv> ''FROM''"
abbreviation NodeWhere :: string where "NodeWhere \<equiv> ''WHERE''"
abbreviation NodeColumns :: string where "NodeColumns \<equiv> ''COLUMNS''"
abbreviation NodeColumn :: string where "NodeColumn \<equiv> ''COLUMN''"
abbreviation NodeTable :: string where "NodeTable \<equiv> ''TABLE''"
abbreviation NodeCondition :: string where "NodeCondition \<equiv> ''CONDITION''"
abbreviation NodeBinaryExpr :: string where "NodeBinaryExpr \<equiv> ''BINARY_EXPR''"
abbreviation NodeLiteral :: string where "NodeLiteral \<equiv> ''LITERAL''"
abbreviation NodeIdentifier :: string where "NodeIdentifier \<equiv> ''IDENTIFIER''"
abbreviation NodeFunction :: string where "NodeFunction \<equiv> ''FUNCTION''"
abbreviation NodeOrderBy :: string where "NodeOrderBy \<equiv> ''ORDER_BY''"
abbreviation NodeLimit :: string where "NodeLimit \<equiv> ''LIMIT''"
abbreviation NodeJoin :: string where "NodeJoin \<equiv> ''JOIN''"
abbreviation NodeStatement :: string where "NodeStatement \<equiv> ''STATEMENT''"

record ASTNode =
  ast_ID :: string
  ast_Type :: string
  ast_Value :: string
  ast_Children :: "string list"
  ast_Parent :: string
  ast_Meta :: "(string \<times> string) list"

record Parser =
  p_tokens :: "Token list"
  p_pos :: nat
  p_nodes :: "(string \<times> ASTNode) list"
  p_nodeSeq :: nat
  p_rootID :: string
  p_errors :: "string list"

definition NewParser :: "Token list \<Rightarrow> Parser" where
  "NewParser tokens =
     \<lparr>p_tokens = tokens, p_pos = 0, p_nodes = [], p_nodeSeq = 0, p_rootID = [],
      p_errors = []\<rparr>"

text \<open>
  A \<open>*ASTNode\<close> is the id of the node in \<open>p.nodes\<close>, or \<open>None\<close> for nil. The parse
  functions return the pointer and the parser they leave; \<open>Inl\<close> is a panic, and
  \<open>None\<close> is the recursion budget (the first argument) running out.
\<close>

type_synonym 'a presult = "(go_panic + 'a \<times> Parser) option"

definition pbind :: "'a presult \<Rightarrow> ('a \<Rightarrow> Parser \<Rightarrow> 'b presult) \<Rightarrow> 'b presult" where
  "pbind m f =
     (case m of
        None \<Rightarrow> None
      | Some (Inl e) \<Rightarrow> Some (Inl e)
      | Some (Inr (x, p)) \<Rightarrow> f x p)"

definition preturn :: "'a \<Rightarrow> Parser \<Rightarrow> 'a presult" where
  "preturn x p = Some (Inr (x, p))"

definition ast_createNode :: "string \<Rightarrow> string \<Rightarrow> Parser \<Rightarrow> string \<times> Parser" where
  "ast_createNode nodeType v p =
     (let seq = p_nodeSeq p + 1;
          node = \<lparr>ast_ID = ''ast-'' @ sprint_d seq, ast_Type = nodeType, ast_Value = v,
                  ast_Children = [], ast_Parent = [], ast_Meta = []\<rparr>
      in (ast_ID node,
          p\<lparr>p_nodeSeq := seq, p_nodes := AList.update (ast_ID node) node (p_nodes p)\<rparr>))"

definition modify_node :: "string \<Rightarrow> (ASTNode \<Rightarrow> ASTNode) \<Rightarrow> Parser \<Rightarrow> Parser" where
  "modify_node nodeID f p =
     (case map_of (p_nodes p) nodeID of
        None \<Rightarrow> p
      | Some node \<Rightarrow> p\<lparr>p_nodes := AList.update nodeID (f node) (p_nodes p)\<rparr>)"

definition set_meta :: "string \<Rightarrow> string \<Rightarrow> string \<Rightarrow> Parser \<Rightarrow> Parser" where
  "set_meta nodeID k v p =
     modify_node nodeID (\<lambda>node. node\<lparr>ast_Meta := AList.update k v (ast_Meta node)\<rparr>) p"

text \<open>\<open>addChild\<close> reads \<open>child.ID\<close>: it panics when the child is nil.\<close>

definition addChild :: "string \<Rightarrow> string option \<Rightarrow> Parser \<Rightarrow> go_panic + Parser" where
  "addChild parent child p =
     (case child of
        None \<Rightarrow> Inl NilPointerDereference
      | Some c \<Rightarrow>
          Inr (modify_node c (\<lambda>node. node\<lparr>ast_Parent := parent\<rparr>)
                 (modify_node parent
                    (\<lambda>node. node\<lparr>ast_Children := ast_Children node @ [c]\<rparr>) p)))"

definition addChild_if :: "string \<Rightarrow> string option \<Rightarrow> Parser \<Rightarrow> Parser" where
  "addChild_if parent child p =
     (case child of
        None \<Rightarrow> p
      | Some c \<Rightarrow>
          modify_node c (\<lambda>node. node\<lparr>ast_Parent := parent\<rparr>)
            (modify_node parent (\<lambda>node. node\<lparr>ast_Children := ast_Children node @ [c]\<rparr>) p))"

definition current :: "Parser \<Rightarrow> Token" where
  "current p =
     (if p_pos p \<ge> length (p_tokens p) then token_of_type TokenEOF else p_tokens p ! p_pos p)"

definition advance :: "Parser \<Rightarrow> Token \<times> Parser" where
  "advance p = (current p, p\<lparr>p_pos := p_pos p + 1\<rparr>)"

definition expect :: "string \<Rightarrow> Parser \<Rightarrow> (Token \<times> bool) \<times> Parser" where
  "expect tokenType p =
     (let token = current p
      in if tok_Type token \<noteq> tokenType
         then ((token, False),
               p\<lparr>p_errors := p_errors p
                   @ [''expected '' @ tokenType @ '' but got '' @ tok_Type token]\<rparr>)
         else (case advance p of (t, p1) \<Rightarrow> ((t, True), p1)))"

definition parseColumnExpression :: "Parser \<Rightarrow> string \<times> Parser" where
  "parseColumnExpression p =
     (case advance p of
        (token, p1) \<Rightarrow>
     (case ast_createNode NodeColumn (tok_Value token) p1 of
        (col, p2) \<Rightarrow>
          if tok_Type (current p2) = TokenAs then
            (case advance p2 of
               (_, p3) \<Rightarrow>
            (case expect TokenIdentifier p3 of
               ((alias, ok), p4) \<Rightarrow>
                 if ok then (col, set_meta col ''alias'' (tok_Value alias) p4) else (col, p4)))
          else (col, p2)))"

text \<open>The loop of \<open>parseColumns\<close>.\<close>

fun columns_loop :: "nat \<Rightarrow> string \<Rightarrow> Parser \<Rightarrow> unit presult" where
  "columns_loop 0 columnsNode p = None"
| "columns_loop (Suc n) columnsNode p =
     (let step =
            (if tok_Type (current p) = TokenStar then
               (case ast_createNode NodeColumn ''*'' p of
                  (col, p1) \<Rightarrow> Some (snd (advance (addChild_if columnsNode (Some col) p1))))
             else if tok_Type (current p) = TokenIdentifier then
               (case parseColumnExpression p of
                  (col, p1) \<Rightarrow> Some (addChild_if columnsNode (Some col) p1))
             else None)
      in case step of
           None \<Rightarrow> preturn () p
         | Some p2 \<Rightarrow>
             if tok_Type (current p2) \<noteq> TokenComma then preturn () p2
             else columns_loop n columnsNode (snd (advance p2)))"

definition parseColumns :: "nat \<Rightarrow> Parser \<Rightarrow> string option presult" where
  "parseColumns n p =
     (case ast_createNode NodeColumns [] p of
        (columnsNode, p1) \<Rightarrow>
          pbind (columns_loop n columnsNode p1) (\<lambda>_ p2. preturn (Some columnsNode) p2))"

text \<open>
  The expression parsers. \<open>or_loop\<close>, \<open>and_loop\<close> are the \<open>for\<close> loops of
  \<open>parseOrExpression\<close> and \<open>parseAndExpression\<close>; both hand \<open>left\<close> to
  \<open>addChild\<close> without testing it for nil, as \<open>parseComparisonExpression\<close> does.
\<close>

fun parseExpression :: "nat \<Rightarrow> Parser \<Rightarrow> string option presult"
  and parseOrExpression :: "nat \<Rightarrow> Parser \<Rightarrow> string option presult"
  and or_loop :: "nat \<Rightarrow> string option \<Rightarrow> Parser \<Rightarrow> string option presult"
  and parseAndExpression :: "nat \<Rightarrow> Parser \<Rightarrow> string option presult"
  and and_loop :: "nat \<Rightarrow> string option \<Rightarrow> Parser \<Rightarrow> string option presult"
  and parseComparisonExpression :: "nat \<Rightarrow> Parser \<Rightarrow> string option presult"
  and parsePrimaryExpression :: "nat \<Rightarrow> Parser \<Rightarrow> string option presult"
where
  "parseExpression 0 p = None"
| "parseExpression (Suc n) p = parseOrExpression n p"
| "parseOrExpression 0 p = None"
| "parseOrExpression (Suc n) p =
     pbind (parseAndExpression n p) (\<lambda>left p1. or_loop n left p1)"
| "or_loop 0 left p = None"
| "or_loop (Suc n) left p =
     (if tok_Type (current p) = TokenOr then
        pbind (parseAndExpression n (snd (advance p)))
          (\<lambda>right p1.
             case ast_createNode NodeBinaryExpr ''OR'' p1 of
               (orNode, p2) \<Rightarrow>
                 (case addChild orNode left p2 of
                    Inl e \<Rightarrow> Some (Inl e)
                  | Inr p3 \<Rightarrow> or_loop n (Some orNode) (addChild_if orNode right p3)))
      else preturn left p)"
| "parseAndExpression 0 p = None"
| "parseAndExpression (Suc n) p =
     pbind (parseComparisonExpression n p) (\<lambda>left p1. and_loop n left p1)"
| "and_loop 0 left p = None"
| "and_loop (Suc n) left p =
     (if tok_Type (current p) = TokenAnd then
        pbind (parseComparisonExpression n (snd (advance p)))
          (\<lambda>right p1.
             case ast_createNode NodeBinaryExpr ''AND'' p1 of
               (andNode, p2) \<Rightarrow>
                 (case addChild andNode left p2 of
                    Inl e \<Rightarrow> Some (Inl e)
                  | Inr p3 \<Rightarrow> and_loop n (Some andNode) (addChild_if andNode right p3)))
      else preturn left p)"
| "parseComparisonExpression 0 p = None"
| "parseComparisonExpression (Suc n) p =
     pbind (parsePrimaryExpression n p)
       (\<lambda>left p1.
          if tok_Type (current p1) = TokenOperator then
            (case advance p1 of
               (op, p2) \<Rightarrow>
                 pbind (parsePrimaryExpression n p2)
                   (\<lambda>right p3.
                      case ast_createNode NodeBinaryExpr (tok_Value op) p3 of
                        (compNode, p4) \<Rightarrow>
                          (case addChild compNode left p4 of
                             Inl e \<Rightarrow> Some (Inl e)
                           | Inr p5 \<Rightarrow>
                               preturn (Some compNode) (addChild_if compNode right p5))))
          else preturn left p1)"
| "parsePrimaryExpression 0 p = None"
| "parsePrimaryExpression (Suc n) p =
     (let token = current p in
      if tok_Type token = TokenIdentifier then
        (case ast_createNode NodeIdentifier (tok_Value token) (snd (advance p)) of
           (node, p1) \<Rightarrow> preturn (Some node) p1)
      else if tok_Type token = TokenNumber then
        (case ast_createNode NodeLiteral (tok_Value token) (snd (advance p)) of
           (node, p1) \<Rightarrow> preturn (Some node) (set_meta node ''literalType'' ''number'' p1))
      else if tok_Type token = TokenString then
        (case ast_createNode NodeLiteral (tok_Value token) (snd (advance p)) of
           (node, p1) \<Rightarrow> preturn (Some node) (set_meta node ''literalType'' ''string'' p1))
      else if tok_Type token = TokenLParen then
        pbind (parseExpression n (snd (advance p)))
          (\<lambda>expr p1. preturn expr (snd (expect TokenRParen p1)))
      else
        preturn None
          (p\<lparr>p_errors := p_errors p
               @ [''unexpected token in expression: '' @ tok_Type token]\<rparr>))"

definition parseJoin :: "nat \<Rightarrow> Parser \<Rightarrow> string option presult" where
  "parseJoin n p =
     (case ast_createNode NodeJoin [] p of
        (joinNode, p1) \<Rightarrow>
     (case expect TokenIdentifier (snd (advance p1)) of
        ((token, ok), p2) \<Rightarrow>
          (let p3 = (if ok then
                       (case ast_createNode NodeTable (tok_Value token) p2 of
                          (table, q) \<Rightarrow> addChild_if joinNode (Some table) q)
                     else p2)
           in if tok_Type (current p3) = TokenOn then
                pbind (parseExpression n (snd (advance p3)))
                  (\<lambda>condition p4. preturn (Some joinNode) (addChild_if joinNode condition p4))
              else preturn (Some joinNode) p3)))"

text \<open>The loop over \<open>JOIN\<close> clauses in \<open>parseFrom\<close>.\<close>

fun join_loop :: "nat \<Rightarrow> string \<Rightarrow> Parser \<Rightarrow> unit presult" where
  "join_loop 0 fromNode p = None"
| "join_loop (Suc n) fromNode p =
     (if tok_Type (current p) = TokenJoin then
        pbind (parseJoin n p)
          (\<lambda>joinNode p1. join_loop n fromNode (addChild_if fromNode joinNode p1))
      else preturn () p)"

definition parseFrom :: "nat \<Rightarrow> Parser \<Rightarrow> string option presult" where
  "parseFrom n p =
     (case ast_createNode NodeFrom [] p of
        (fromNode, p1) \<Rightarrow>
     (case expect TokenIdentifier (snd (advance p1)) of
        ((token, ok), p2) \<Rightarrow>
          (let p3 =
                 (if ok then
                    (case ast_createNode NodeTable (tok_Value token) p2 of
                       (table, q) \<Rightarrow>
                         (let q1 = addChild_if fromNode (Some table) q
                          in if tok_Type (current q1) = TokenAs then
                               (case expect TokenIdentifier (snd (advance q1)) of
                                  ((alias, ok2), q2) \<Rightarrow>
                                    if ok2 then set_meta table ''alias'' (tok_Value alias) q2
                                    else q2)
                             else if tok_Type (current q1) = TokenIdentifier then
                               (case advance q1 of
                                  (alias, q2) \<Rightarrow> set_meta table ''alias'' (tok_Value alias) q2)
                             else q1))
                  else p2)
           in pbind (join_loop n fromNode p3) (\<lambda>_ p4. preturn (Some fromNode) p4))))"

definition parseWhere :: "nat \<Rightarrow> Parser \<Rightarrow> string option presult" where
  "parseWhere n p =
     (case ast_createNode NodeWhere [] p of
        (whereNode, p1) \<Rightarrow>
          pbind (parseExpression n (snd (advance p1)))
            (\<lambda>condition p2. preturn (Some whereNode) (addChild_if whereNode condition p2)))"

definition parseOrderBy :: "Parser \<Rightarrow> string option \<times> Parser" where
  "parseOrderBy p =
     (case ast_createNode NodeOrderBy [] p of
        (orderNode, p1) \<Rightarrow>
          (let p2 = snd (advance p1);
               p3 = (if tok_Type (current p2) = TokenIdentifier \<and> tok_Value (current p2) = ''BY''
                     then snd (advance p2) else p2)
           in if tok_Type (current p3) = TokenIdentifier then
                (case advance p3 of
                   (t, p4) \<Rightarrow>
                (case ast_createNode NodeColumn (tok_Value t) p4 of
                   (col, p5) \<Rightarrow>
                     (let p6 = addChild_if orderNode (Some col) p5
                      in if tok_Type (current p6) = TokenIdentifier
                            \<and> (tok_Value (current p6) = ''ASC'' \<or> tok_Value (current p6) = ''DESC'')
                         then (Some orderNode,
                               snd (advance (set_meta col ''direction'' (tok_Value (current p6)) p6)))
                         else (Some orderNode, p6))))
              else (Some orderNode, p3)))"

definition parseLimit :: "Parser \<Rightarrow> string option \<times> Parser" where
  "parseLimit p =
     (case ast_createNode NodeLimit [] p of
        (limitNode, p1) \<Rightarrow>
          (let p2 = snd (advance p1);
               p3 = (if tok_Type (current p2) = TokenNumber then
                       (case advance p2 of
                          (t, q) \<Rightarrow> modify_node limitNode (\<lambda>node. node\<lparr>ast_Value := tok_Value t\<rparr>) q)
                     else p2);
               p4 = (if tok_Type (current p3) = TokenOffset then
                       (let q = snd (advance p3)
                        in if tok_Type (current q) = TokenNumber then
                             (case advance q of
                                (t, q1) \<Rightarrow> set_meta limitNode ''offset'' (tok_Value t) q1)
                           else q)
                     else p3)
           in (Some limitNode, p4)))"

definition parseSelect :: "nat \<Rightarrow> Parser \<Rightarrow> string option presult" where
  "parseSelect n p =
     (case ast_createNode NodeStatement ''SELECT'' p of
        (selectNode, p0) \<Rightarrow>
          (let p1 = snd (advance (set_meta selectNode ''type'' ''SELECT'' p0)) in
           pbind (parseColumns n p1)
             (\<lambda>columns p2.
                let p3 = addChild_if selectNode columns p2 in
                pbind (if tok_Type (current p3) = TokenFrom then
                         pbind (parseFrom n p3)
                           (\<lambda>fromNode q. preturn () (addChild_if selectNode fromNode q))
                       else preturn () p3)
                  (\<lambda>_ p4.
                     pbind (if tok_Type (current p4) = TokenWhere then
                              pbind (parseWhere n p4)
                                (\<lambda>whereNode q. preturn () (addChild_if selectNode whereNode q))
                            else preturn () p4)
                       (\<lambda>_ p5.
                          let p6 = (if tok_Type (current p5) = TokenOrderBy then
                                      (case parseOrderBy p5 of
                                         (orderNode, q) \<Rightarrow> addChild_if selectNode orderNode q)
                                    else p5);
                              p7 = (if tok_Type (current p6) = TokenLimit then
                                      (case parseLimit p6 of
                                         (limitNode, q) \<Rightarrow> addChild_if selectNode limitNode q)
                                    else p6)
                          in preturn (Some selectNode) p7)))))"

definition parseStatement :: "nat \<Rightarrow> Parser \<Rightarrow> string option presult" where
  "parseStatement n p =
     (let token = current p
      in if tok_Type token = TokenSelect then parseSelect n p
         else preturn None
                (p\<lparr>p_errors := p_errors p @ [''unexpected token: '' @ tok_Type token]\<rparr>))"

text \<open>\<open>fmt.Sprintf("%v", xs)\<close> for a slice of strings: the elements between brackets.\<close>

fun join_space :: "string list \<Rightarrow> string" where
  "join_space [] = []"
| "join_space [x] = x"
| "join_space (x # y # ys) = x @ '' '' @ join_space (y # ys)"

text \<open>
  \<open>Parse\<close> returns the root and a nil error, or nil and an error message.
\<close>

definition Parse :: "nat \<Rightarrow> Parser \<Rightarrow> (string + string) presult" where
  "Parse n p =
     (if length (p_tokens p) = 0 then preturn (Inl ''no tokens to parse'') p
      else
        pbind (parseStatement n p)
          (\<lambda>rootNode p1.
             case rootNode of
               None \<Rightarrow>
                 if length (p_errors p1) > 0
                 then preturn (Inl (''parse errors: ['' @ join_space (p_errors p1) @ '']'')) p1
                 else preturn (Inl ''failed to parse statement'') p1
             | Some r \<Rightarrow> preturn (Inr r) (p1\<lparr>p_rootID := r\<rparr>)))"

subsection \<open>Parser simulation\<close>

record ParserSimulation =
  ps_query :: string
  ps_tokens :: "Token list"
  ps_astNodes :: "(string \<times> ASTNode) list"
  ps_astRoot :: string
  ps_steps :: "Step list"
  ps_currentStep :: int
  ps_currentTokenIndex :: int
  ps_parsePhase :: string

definition NewParserSimulation :: ParserSimulation where
  "NewParserSimulation =
     \<lparr>ps_query = [], ps_tokens = [], ps_astNodes = [], ps_astRoot = [], ps_steps = [],
      ps_currentStep = -1, ps_currentTokenIndex = 0, ps_parsePhase = ''idle''\<rparr>"

definition ps_Reset :: "ParserSimulation \<Rightarrow> ParserSimulation" where
  "ps_Reset sim =
     sim\<lparr>ps_tokens := [], ps_astNodes := [], ps_astRoot := [], ps_steps := [],
         ps_currentStep := -1, ps_currentTokenIndex := -1, ps_parsePhase := ''idle''\<rparr>"

definition addStep ::
  "string \<Rightarrow> string \<Rightarrow> Highlight list \<Rightarrow> ParserSimulation \<Rightarrow> ParserSimulation" where
  "addStep title description highlights sim =
     sim\<lparr>ps_steps := ps_steps sim
           @ [\<lparr>st_Index = int (length (ps_steps sim)), st_Title = title,
               st_Description = description, st_Highlights = highlights\<rparr>]\<rparr>"

definition highlight :: "string \<Rightarrow> string \<Rightarrow> string \<Rightarrow> string \<Rightarrow> Highlight" where
  "highlight t i c a =
     \<lparr>hl_Type = t, hl_ID = i, hl_Color = c, hl_Animation = a, hl_Duration = 0\<rparr>"

lemma string_scan_le: "string_scan q cs \<le> length cs"
  by (induction q cs rule: string_scan.induct) auto

lemma nextToken_advances:
  assumes "lx_pos l < length (lx_input l)"
  shows "lx_pos l < lx_pos (snd (nextToken l)) \<and> lx_input (snd (nextToken l)) = lx_input l"
proof -
  let ?ch = "lx_input l ! lx_pos l"
  have hd: "drop (lx_pos l) (lx_input l) = ?ch # drop (Suc (lx_pos l)) (lx_input l)"
    using assms by (simp add: Cons_nth_drop_Suc)
  have num: "isDigit ?ch \<Longrightarrow>
      0 < length (takeWhile (\<lambda>c. isDigit c \<or> c = CHR ''.'') (drop (lx_pos l) (lx_input l)))"
    by (simp add: hd)
  have idn: "isLetter ?ch \<or> ?ch = CHR ''_'' \<Longrightarrow>
      0 < length (takeWhile (\<lambda>c. isLetter c \<or> isDigit c \<or> c = CHR ''_'')
                    (drop (lx_pos l) (lx_input l)))"
    by (auto simp: hd)
  show ?thesis
    using num idn
    by (auto simp: nextToken_def readOperator_def readString_def readNumber_def
        readIdentifier_def Let_def split: option.splits)
qed

lemma takeWhile_after_takeWhile:
  "takeWhile P (drop (n + length (takeWhile P (drop n xs))) xs) = []"
proof -
  have "drop (n + length (takeWhile P (drop n xs))) xs = dropWhile P (drop n xs)"
    by (simp add: dropWhile_eq_drop add.commute)
  moreover have "takeWhile P (dropWhile P ys) = []" for ys
    by (induction ys) simp_all
  ultimately show ?thesis
    by simp
qed

lemma skipWhitespace_idem: "skipWhitespace (skipWhitespace l) = skipWhitespace l"
  by (simp add: skipWhitespace_def takeWhile_after_takeWhile)

text \<open>
  The tokenizing loop of \<open>prepareParseSimulation\<close>: while the lexer has more, take a
  token, stop at an end-of-input token, else store it and add its step.
\<close>

function tokenize_loop :: "Lexer \<Rightarrow> ParserSimulation \<Rightarrow> ParserSimulation" where
  "tokenize_loop l sim =
     (if lx_pos (skipWhitespace l) < length (lx_input (skipWhitespace l)) then
        (let token = fst (TokenizeStep (skipWhitespace l));
             l2 = snd (TokenizeStep (skipWhitespace l))
         in if tok_Type token = TokenEOF then sim
            else
              (let sim1 = sim\<lparr>ps_tokens := ps_tokens sim @ [token]\<rparr>;
                   tokenIndex = length (ps_tokens sim1) - 1
               in tokenize_loop l2
                    (addStep (''Token: '' @ tok_Type token)
                       (''Found '' @ tok_Type token @ '' token: '' @ [CHR 0x27]
                          @ tok_Value token @ [CHR 0x27] @ '' at position ''
                          @ sprint_d (pos_Start (tok_Position token)) @ ''-''
                          @ sprint_d (pos_End (tok_Position token)))
                       [highlight ''token'' (''token-'' @ sprint_d tokenIndex) ''#3b82f6''
                          ''pulse'']
                       sim1)))
      else sim)"
  by pat_completeness auto
termination
proof (relation "measure (\<lambda>(l, sim). length (lx_input l) - lx_pos l)", goal_cases)
  case 1
  show ?case by simp
next
  case (2 l sim token l2 sim1 tokenIndex)
  let ?l1 = "skipWhitespace l"
  have idem: "skipWhitespace ?l1 = ?l1"
    by (rule skipWhitespace_idem)
  have more: "lx_pos ?l1 < length (lx_input ?l1)"
    using 2 by simp
  have "l2 = (snd (nextToken ?l1))\<lparr>lx_tokens := lx_tokens (snd (nextToken ?l1)) @ [token]\<rparr>"
    using 2 more by (simp add: TokenizeStep_def idem Let_def split: prod.splits)
  hence "lx_pos ?l1 < lx_pos l2" "lx_input l2 = lx_input ?l1"
    using nextToken_advances [OF more] by simp_all
  moreover have "lx_pos l \<le> lx_pos ?l1" "lx_input ?l1 = lx_input l"
    by (simp_all add: skipWhitespace_def)
  ultimately show ?case
    using more by simp
qed

text \<open>
  \<open>generateASTSteps\<close> walks the tree through the node map, which nothing keeps
  acyclic; the first argument bounds the depth.
\<close>

fun generateASTSteps :: "nat \<Rightarrow> ASTNode option \<Rightarrow> ParserSimulation \<Rightarrow> ParserSimulation option"
  and children_steps :: "nat \<Rightarrow> string list \<Rightarrow> ParserSimulation \<Rightarrow> ParserSimulation option"
where
  "generateASTSteps 0 node sim = None"
| "generateASTSteps (Suc n) None sim = Some sim"
| "generateASTSteps (Suc n) (Some node) sim =
     children_steps n (ast_Children node)
       (addStep (''AST: '' @ ast_Type node)
          (if ast_Value node \<noteq> []
           then ''Created '' @ ast_Type node @ '' node with value '' @ [CHR 0x27]
                @ ast_Value node @ [CHR 0x27]
           else ''Created '' @ ast_Type node @ '' node'')
          [highlight ''node'' (ast_ID node) ''#8b5cf6'' ''fadeIn'']
          sim)"
| "children_steps n [] sim = Some sim"
| "children_steps n (childID # rest) sim =
     (case map_of (ps_astNodes sim) childID of
        None \<Rightarrow> children_steps n rest sim
      | Some childNode \<Rightarrow>
          (case generateASTSteps n (Some childNode) sim of
             None \<Rightarrow> None
           | Some sim1 \<Rightarrow> children_steps n rest sim1))"

text \<open>
  \<open>prepareParseSimulation\<close>. The result is \<open>None\<close> when the budget is too small,
  \<open>Some (Inl e)\<close> when the call panics and \<open>Some (Inr sim)\<close> when it returns.
\<close>

definition tokenize_phase :: "string \<Rightarrow> ParserSimulation \<Rightarrow> ParserSimulation" where
  "tokenize_phase query sim =
     (let sim1 = sim\<lparr>ps_query := query, ps_steps := [], ps_parsePhase := ''tokenizing''\<rparr>;
          sim2 = addStep ''Start Parsing'' (''Parsing SQL query: '' @ query) [] sim1;
          sim3 = addStep ''Tokenization'' ''Breaking input into tokens (lexical analysis)'' []
                   sim2;
          sim4 = tokenize_loop (NewLexer query) sim3;
          sim5 = sim4\<lparr>ps_tokens := ps_tokens sim4
                        @ [mk_token TokenEOF [] (length query) (length query)]\<rparr>;
          sim6 = addStep ''Tokenization Complete''
                   (''Created '' @ sprint_d (length (ps_tokens sim5) - 1) @ '' tokens from input'')
                   [] sim5
      in addStep ''Parsing'' ''Building Abstract Syntax Tree (AST) from tokens'' []
           (sim6\<lparr>ps_parsePhase := ''parsing''\<rparr>))"

definition prepareParseSimulation ::
  "nat \<Rightarrow> string \<Rightarrow> ParserSimulation \<Rightarrow> (go_panic + ParserSimulation) option" where
  "prepareParseSimulation n query sim =
     (let sim1 = tokenize_phase query sim
      in case Parse n (NewParser (ps_tokens sim1)) of
           None \<Rightarrow> None
         | Some (Inl e) \<Rightarrow> Some (Inl e)
         | Some (Inr (Inl err, parser)) \<Rightarrow>
             Some (Inr ((addStep ''Parse Error'' err [] sim1)\<lparr>ps_parsePhase := ''error''\<rparr>))
         | Some (Inr (Inr rootNode, parser)) \<Rightarrow>
             (let sim2 = sim1\<lparr>ps_astNodes := p_nodes parser, ps_astRoot := p_rootID parser\<rparr>
              in case generateASTSteps n (map_of (p_nodes parser) rootNode) sim2 of
                   None \<Rightarrow> None
                 | Some sim3 \<Rightarrow>
                     Some (Inr (addStep ''Parsing Complete''
                                  (''Successfully created AST with ''
                                     @ sprint_d (length (ps_astNodes sim3)) @ '' nodes'')
                                  [highlight ''node'' (ps_astRoot sim3) ''#10b981'' ''pulse'']
                                  (sim3\<lparr>ps_parsePhase := ''complete''\<rparr>)))))"

definition ParseQuery ::
  "nat \<Rightarrow> string \<Rightarrow> ParserSimulation \<Rightarrow> (go_panic + ParserSimulation) option" where
  "ParseQuery n query sim = prepareParseSimulation n query (ps_Reset sim)"

text \<open>\<open>Initialize\<close>, with \<open>config["query"].(string)\<close> as an optional string.\<close>

definition ps_Initialize ::
  "nat \<Rightarrow> string option \<Rightarrow> ParserSimulation \<Rightarrow> (go_panic + ParserSimulation) option" where
  "ps_Initialize n config_query sim =
     (case config_query of
        Some query \<Rightarrow>
          if query \<noteq> [] then prepareParseSimulation n query ((ps_Reset sim)\<lparr>ps_query := query\<rparr>)
          else Some (Inr (ps_Reset sim))
      | None \<Rightarrow> Some (Inr (ps_Reset sim)))"

text \<open>The type of the first token of a query, end-of-input when it has none.\<close>

definition first_token_type :: "string \<Rightarrow> string" where
  "first_token_type query = tok_Type (fst (TokenizeStep (NewLexer query)))"

text \<open>The parser as \<open>prepareParseSimulation\<close> leaves it, for the errors it recorded.\<close>

definition parser_after :: "nat \<Rightarrow> string \<Rightarrow> (go_panic + Parser) option" where
  "parser_after n query =
     (case Parse n (NewParser (ps_tokens (tokenize_phase query (ps_Reset NewParserSimulation)))) of
        None \<Rightarrow> None
      | Some (Inl e) \<Rightarrow> Some (Inl e)
      | Some (Inr (_, parser)) \<Rightarrow> Some (Inr parser))"


subsection \<open>What a trace reports of a syntax violation\<close>

declare tokenize_loop.simps [simp del]

definition trace_summary ::
  "(go_panic + ParserSimulation) option \<Rightarrow> (go_panic + string list \<times> string) option" where
  "trace_summary r =
     map_option (map_sum id (\<lambda>sim. (map st_Title (ps_steps sim), ps_parsePhase sim))) r"

lemma addStep_fields [simp]:
  "ps_tokens (addStep t d h sim) = ps_tokens sim"
  "ps_astNodes (addStep t d h sim) = ps_astNodes sim"
  "ps_astRoot (addStep t d h sim) = ps_astRoot sim"
  "ps_parsePhase (addStep t d h sim) = ps_parsePhase sim"
  "ps_steps (addStep t d h sim) \<noteq> []"
  "last (ps_steps (addStep t d h sim)) =
     \<lparr>st_Index = int (length (ps_steps sim)), st_Title = t, st_Description = d,
      st_Highlights = h\<rparr>"
  "length (ps_steps (addStep t d h sim)) = Suc (length (ps_steps sim))"
  by (simp_all add: addStep_def)

lemma tokenize_loop_frame:
  "(\<exists>ts. ps_tokens (tokenize_loop l sim) = ps_tokens sim @ ts)
   \<and> ps_astNodes (tokenize_loop l sim) = ps_astNodes sim
   \<and> ps_astRoot (tokenize_loop l sim) = ps_astRoot sim"
proof (induction l sim rule: tokenize_loop.induct)
  case (1 l sim)
  show ?case
  proof (cases "lx_pos (skipWhitespace l) < length (lx_input (skipWhitespace l))
                \<and> tok_Type (fst (TokenizeStep (skipWhitespace l))) \<noteq> TokenEOF")
    case False
    thus ?thesis
      by (subst (1 2 3) tokenize_loop.simps) (auto simp: Let_def)
  next
    case True
    note ih = 1 [OF conjunct1 [OF True] refl refl conjunct2 [OF True] refl refl]
    from True ih show ?thesis
      by (subst (1 2 3) tokenize_loop.simps) (auto simp: Let_def)
  qed
qed

lemma TokenizeStep_skipWhitespace: "TokenizeStep (skipWhitespace l) = TokenizeStep l"
  by (simp add: TokenizeStep_def skipWhitespace_idem)

lemma TokenizeStep_at_end:
  "\<not> lx_pos (skipWhitespace l) < length (lx_input (skipWhitespace l)) \<Longrightarrow>
   tok_Type (fst (TokenizeStep l)) = TokenEOF"
  by (simp add: TokenizeStep_def mk_token_def Let_def)

lemma tokenize_loop_first:
  assumes "ps_tokens sim = []"
  shows "\<exists>t ts. ps_tokens (tokenize_loop l sim
                    \<lparr>ps_tokens := ps_tokens (tokenize_loop l sim) @ [mk_token TokenEOF [] a b]\<rparr>)
                  = t # ts
               \<and> tok_Type t = tok_Type (fst (TokenizeStep l))"
proof (cases "lx_pos (skipWhitespace l) < length (lx_input (skipWhitespace l))
              \<and> tok_Type (fst (TokenizeStep l)) \<noteq> TokenEOF")
  case True
  let ?token = "fst (TokenizeStep l)"
  obtain sim' l' where eq: "tokenize_loop l sim = tokenize_loop l' sim'"
    and toks: "ps_tokens sim' = [?token]"
    using True assms
    by (subst (asm) tokenize_loop.simps)
       (auto simp: Let_def TokenizeStep_skipWhitespace tokenize_loop.simps [of l sim])
  from tokenize_loop_frame [of l' sim'] toks obtain ts
    where "ps_tokens (tokenize_loop l' sim') = ?token # ts"
    by auto
  thus ?thesis
    by (simp add: eq)
next
  case False
  hence stop: "tokenize_loop l sim = sim"
    by (subst tokenize_loop.simps) (auto simp: Let_def TokenizeStep_skipWhitespace)
  from False have "tok_Type (fst (TokenizeStep l)) = TokenEOF"
    using TokenizeStep_at_end [of l] by auto
  thus ?thesis
    by (simp add: stop assms mk_token_def)
qed

lemma tokenize_phase_first:
  assumes "ps_tokens sim = []"
  shows "\<exists>t ts. ps_tokens (tokenize_phase query sim) = t # ts
               \<and> tok_Type t = first_token_type query"
proof -
  let ?sim3 = "addStep ''Tokenization'' ''Breaking input into tokens (lexical analysis)'' []
                 (addStep ''Start Parsing'' (''Parsing SQL query: '' @ query) []
                    (sim\<lparr>ps_query := query, ps_steps := [], ps_parsePhase := ''tokenizing''\<rparr>))"
  have "ps_tokens ?sim3 = []"
    using assms by simp
  from tokenize_loop_first [OF this, of "NewLexer query" "length query" "length query"]
  show ?thesis
    by (simp add: tokenize_phase_def first_token_type_def Let_def)
qed

lemma tokenize_phase_frame:
  "ps_astNodes (tokenize_phase query sim) = ps_astNodes sim"
  "ps_astRoot (tokenize_phase query sim) = ps_astRoot sim"
  by (simp_all add: tokenize_phase_def Let_def tokenize_loop_frame)

lemma Parse_not_select:
  assumes "tok_Type t \<noteq> TokenSelect"
  shows "Parse n (NewParser (t # ts)) =
         Some (Inr (Inl (''parse errors: [unexpected token: '' @ tok_Type t @ '']''),
                    (NewParser (t # ts))\<lparr>p_errors := [''unexpected token: '' @ tok_Type t]\<rparr>))"
  using assms
  by (simp add: Parse_def parseStatement_def current_def NewParser_def pbind_def preturn_def)

text \<open>
  A query whose first token is not \<open>SELECT\<close>, or that has no token at all, stops the
  parser: \<open>ParseQuery\<close> returns for every recursion budget, without a panic, in phase
  \<open>error\<close>, with no syntax tree, and the last step of its trace is the \<open>Parse Error\<close>
  step that names the token. This is the only error that \<open>Parse\<close> returns on a
  non-empty token list.
\<close>

lemma unexpected_first_token_ends_trace_with_error_step:
  assumes "first_token_type query \<noteq> TokenSelect"
  shows "\<exists>sim'. ParseQuery n query sim = Some (Inr sim')
           \<and> ps_parsePhase sim' = ''error''
           \<and> ps_astNodes sim' = [] \<and> ps_astRoot sim' = []
           \<and> ps_steps sim' \<noteq> []
           \<and> last (ps_steps sim') =
               \<lparr>st_Index = int (length (ps_steps sim')) - 1,
                st_Title = ''Parse Error'',
                st_Description =
                  ''parse errors: [unexpected token: '' @ first_token_type query @ '']'',
                st_Highlights = []\<rparr>"
proof -
  let ?sim1 = "tokenize_phase query (ps_Reset sim)"
  have "ps_tokens (ps_Reset sim) = []"
    by (simp add: ps_Reset_def)
  from tokenize_phase_first [OF this, of query] obtain t ts
    where toks: "ps_tokens ?sim1 = t # ts" and ty: "tok_Type t = first_token_type query"
    by blast
  have "tok_Type t \<noteq> TokenSelect"
    using assms ty by simp
  from Parse_not_select [OF this, of n ts]
  have "ParseQuery n query sim =
        Some (Inr ((addStep ''Parse Error''
                      (''parse errors: [unexpected token: '' @ first_token_type query @ '']'')
                      [] ?sim1)\<lparr>ps_parsePhase := ''error''\<rparr>))"
    by (simp add: ParseQuery_def prepareParseSimulation_def Let_def toks ty)
  moreover have "ps_astNodes ?sim1 = []" "ps_astRoot ?sim1 = []"
    by (simp_all add: tokenize_phase_frame ps_Reset_def)
  ultimately show ?thesis
    by simp
qed

lemma unexpected_first_token_example:
  "first_token_type ''UPDATE users SET a = 1'' = ''UPDATE''
   \<and> (\<exists>sim'. ParseQuery 0 ''UPDATE users SET a = 1'' NewParserSimulation = Some (Inr sim')
          \<and> ps_parsePhase sim' = ''error''
          \<and> st_Title (last (ps_steps sim')) = ''Parse Error''
          \<and> st_Description (last (ps_steps sim')) = ''parse errors: [unexpected token: UPDATE]'')"
proof -
  have ft: "first_token_type ''UPDATE users SET a = 1'' = ''UPDATE''"
    by code_simp
  from unexpected_first_token_ends_trace_with_error_step
         [of "''UPDATE users SET a = 1''" 0 NewParserSimulation] ft
  show ?thesis
    by auto
qed

text \<open>
  After the first token a violation is appended to \<open>p.errors\<close> and parsing goes on.
  For \<open>SELECT * FROM\<close> the parser records \<open>expected IDENTIFIER but got EOF\<close> and
  \<open>Parse\<close> returns the tree with a nil error: the trace has no error step and ends
  with \<open>Parsing Complete\<close> in phase \<open>complete\<close>.
\<close>

lemma recorded_violation_without_error_step:
  "trace_summary (ParseQuery 20 ''SELECT * FROM'' NewParserSimulation) =
     Some (Inr ([''Start Parsing'', ''Tokenization'', ''Token: SELECT'', ''Token: STAR'',
                 ''Token: FROM'', ''Tokenization Complete'', ''Parsing'', ''AST: STATEMENT'',
                 ''AST: COLUMNS'', ''AST: COLUMN'', ''AST: FROM'', ''Parsing Complete''],
                ''complete''))
   \<and> map_option (map_sum id p_errors) (parser_after 20 ''SELECT * FROM'') =
       Some (Inr [''expected IDENTIFIER but got EOF''])"
  by code_simp

text \<open>
  Tokens the grammar has no place for are not recorded either: after the table and
  its alias the parser stops reading, and the trace reports success.
\<close>

lemma unconsumed_tokens_are_not_reported:
  "map_option (map_sum id p_errors) (parser_after 20 ''SELECT * FROM users u ) ) SELECT'') =
     Some (Inr [])
   \<and> map_option (map_sum id snd)
       (trace_summary (ParseQuery 20 ''SELECT * FROM users u ) ) SELECT'' NewParserSimulation)) =
       Some (Inr ''complete'')"
  by code_simp

text \<open>The query of scenario D is parsed without a recorded error into nine nodes.\<close>

lemma scenario_D_trace:
  "trace_summary (ParseQuery 20 ''SELECT * FROM users WHERE id = 1'' NewParserSimulation) =
     Some (Inr ([''Start Parsing'', ''Tokenization'', ''Token: SELECT'', ''Token: STAR'',
                 ''Token: FROM'', ''Token: IDENTIFIER'', ''Token: WHERE'', ''Token: IDENTIFIER'',
                 ''Token: OPERATOR'', ''Token: NUMBER'', ''Tokenization Complete'', ''Parsing'',
                 ''AST: STATEMENT'', ''AST: COLUMNS'', ''AST: COLUMN'', ''AST: FROM'',
                 ''AST: TABLE'', ''AST: WHERE'', ''AST: BINARY_EXPR'', ''AST: IDENTIFIER'',
                 ''AST: LITERAL'', ''Parsing Complete''],
                ''complete''))
   \<and> map_option (map_sum id p_errors) (parser_after 20 ''SELECT * FROM users WHERE id = 1'') =
       Some (Inr [])"
  by code_simp

text \<open>
  A comparison whose left operand is missing panics. \<open>parsePrimaryExpression\<close> records
  the operator as an unexpected token and returns nil; the operator is then read, the
  right operand parsed, and \<open>addChild\<close> is given the nil left operand, whose \<open>ID\<close>
  it reads. The right operand is tested for nil, the left one is not.
\<close>

lemma comparison_without_left_operand_panics:
  assumes "tok_Type (current p) = TokenOperator"
    and "tok_Type (current (snd (advance p))) = TokenNumber
         \<or> tok_Type (current (snd (advance p))) = TokenIdentifier
         \<or> tok_Type (current (snd (advance p))) = TokenString"
  shows "parseComparisonExpression (Suc (Suc n)) p = Some (Inl NilPointerDereference)"
  using assms
  by (auto simp: pbind_def preturn_def current_def advance_def ast_createNode_def
      addChild_def Let_def split: prod.splits)

text \<open>
  C5. The tokens of \<open>SELECT * FROM users WHERE = 1\<close> have an operator where the
  condition must start. \<open>ParseQuery\<close> does not return a trace with an error step: it
  panics with a nil pointer dereference, which reaches its caller, as it does when the
  condition starts with \<open>AND\<close> or \<open>OR\<close>.
\<close>

theorem missing_left_operand_panics:
  "map tok_Type
     (ps_tokens (tokenize_phase ''SELECT * FROM users WHERE = 1'' (ps_Reset NewParserSimulation)))
     = [TokenSelect, TokenStar, TokenFrom, TokenIdentifier, TokenWhere, TokenOperator,
        TokenNumber, TokenEOF]
   \<and> ParseQuery 20 ''SELECT * FROM users WHERE = 1'' NewParserSimulation
       = Some (Inl NilPointerDereference)
   \<and> ps_Initialize 20 (Some ''SELECT * FROM users WHERE = 1'') NewParserSimulation
       = Some (Inl NilPointerDereference)
   \<and> ParseQuery 20 ''SELECT * FROM users WHERE AND a = 1'' NewParserSimulation
       = Some (Inl NilPointerDereference)
   \<and> ParseQuery 20 ''SELECT * FROM users WHERE OR a = 1'' NewParserSimulation
       = Some (Inl NilPointerDereference)"
  by code_simp

end
